theory Spec2Isabelle
  imports Complex_Main
begin

section \<open>Data model\<close>

text \<open>
  The upload manager of \<^verbatim>\<open>src/index.js\<close> (class \<^verbatim>\<open>PlvVideoUpload\<close>) owns two queues
  and one pool (\<^verbatim>\<open>src/pool.js\<close>, class \<^verbatim>\<open>Pool\<close>).  All of its code runs in callback
  turns of a single thread, so every method and every promise callback is a function
  from the state before the turn to the state after it.

  Objects are shared by reference (the same \<^verbatim>\<open>UploadManager\<close> sits in a queue, in a pool
  item and in the result its future resolves with), so the model keeps them in a heap and
  the containers hold references.  A promise is a cell of a promise table; a cell settles
  once.
\<close>

type_synonym ref = nat
type_synonym pid = nat

text \<open>\<^verbatim>\<open>STATUS\<close> of index.js, lines 12 to 15.\<close>

datatype mode = NOT_STARTED | UPLOADING

text \<open>
  The value a task's future is fulfilled with: \<^verbatim>\<open>res.status\<close>, and \<^verbatim>\<open>res.json()\<close> with its
  \<^verbatim>\<open>id\<close> and \<^verbatim>\<open>uploader\<close> (which index.js line 316 allows to be missing).
\<close>

record res =
  res_status :: int
  data_id :: string
  data_uploader :: "ref option"

text \<open>A promise: pending, fulfilled with a result (or with a falsy value), or rejected.\<close>

datatype settled = Pending | Fulfilled "res option" | Rejected string

text \<open>
  Modelled from the spec: the \<^verbatim>\<open>UploadManager\<close> of \<^verbatim>\<open>./upload\<close>, which is not among the
  sources.  The spec gives a task a unique id, a mutable status marker, \<^verbatim>\<open>stop()\<close>,
  \<^verbatim>\<open>updateFileData(partial)\<close> and one resolve listener and one reject listener.  The
  object also stands for the \<^verbatim>\<open>fileData\<close> it was made from, which carries the same id
  (index.js line 174).  \<open>stopCalls\<close> counts the cooperative stop requests received.
\<close>

record uploader =
  uid :: string
  statusCode :: int
  isDeleted :: bool
  stopCalls :: nat
  fileData :: "(string \<times> string) list"
  resolveListener :: "pid option"
  rejectListener :: "pid option"

text \<open>
  A pool item, pool.js lines 36 to 41: the task, its id, and the two functions of the
  promise made for this admission cycle, which are one promise cell.
\<close>

record item =
  iid :: string
  task :: ref
  deferred :: pid

text \<open>
  The chain \<^verbatim>\<open>_runTask(item.task).then(..).catch(..).finally(..)\<close> of pool.js lines 109 to 117
  waits for the outcome of the run, then has run its \<^verbatim>\<open>then\<close> or \<^verbatim>\<open>catch\<close> callback and
  waits for \<^verbatim>\<open>finally\<close>, then is done.
\<close>

datatype phase = Awaiting | Finishing | Done

text \<open>
  What an Error event carries: a code with its datum (index.js lines 104 to 110, 138 to
  144 and 150 to 156), the result of line 310, or the reason of the rejection of line 295.
  The subscribers of \<^verbatim>\<open>trigger\<close> are outside the model: the events emitted are logged.
\<close>

datatype payload = ErrCode int string | ErrRes res | ErrReason string

datatype event = ErrorEvent payload | UploadCompleteEvent

text \<open>
  What a method throws: the errors of index.js lines 145 and 157, and the TypeError of
  reading a property of \<^verbatim>\<open>undefined\<close>.
\<close>

datatype js_error = DuplicateFile | UnacceptableType | TypeError

text \<open>
  The state: the limit and the two lists of the pool; the two queues, the list of futures
  not yet watched and the mode of the manager; the heap of task objects; the promise
  table; the chains of the runs started, in the order they were started; the
  continuations (\<open>watches\<close>) and the chains on single futures (\<open>handlers\<close>) that
  \<^verbatim>\<open>_onPromiseEnd\<close> registered, each with a flag that says it has run; the events emitted.
\<close>

record state =
  limit :: rat
  waitingList :: "item list"
  processingList :: "item list"
  fileQueue :: "ref list"
  waitQueue :: "ref list"
  newUploadPromiseList :: "pid list"
  status :: mode
  heap :: "ref \<Rightarrow> uploader"
  nextRef :: ref
  promises :: "pid \<Rightarrow> settled"
  nextPid :: pid
  runs :: "(item \<times> phase) list"
  watches :: "(pid list \<times> bool) list"
  handlers :: "(pid \<times> bool) list"
  events :: "event list"

section \<open>Pool (pool.js)\<close>

text \<open>
  \<^verbatim>\<open>_removeItem\<close>, lines 73 to 95, without the admission check of line 91: the loop finds
  the first index whose item has the id, \<^verbatim>\<open>splice\<close> takes that item out.
\<close>

fun removeItem :: "string \<Rightarrow> item list \<Rightarrow> item option \<times> item list" where
  "removeItem i [] = (None, [])"
| "removeItem i (x # xs) =
     (if i = iid x then (Some x, xs)
      else (case removeItem i xs of (r, ys) \<Rightarrow> (r, x # ys)))"

text \<open>
  \<^verbatim>\<open>Array.prototype.slice(0, end)\<close> for a finite number \<open>end\<close>: the end is truncated
  towards zero; a negative end counts from the back of the array.
\<close>

definition trunc :: "rat \<Rightarrow> int" where
  "trunc x = (if 0 \<le> x then \<lfloor>x\<rfloor> else \<lceil>x\<rceil>)"

definition js_slice0 :: "'a list \<Rightarrow> rat \<Rightarrow> 'a list" where
  "js_slice0 xs e =
     (let n = int (length xs); r = trunc e;
          final = (if r < 0 then max (n + r) 0 else min r n)
      in take (nat final) xs)"

text \<open>\<^verbatim>\<open>_waitingListRemove\<close>, lines 98 to 100: \<^verbatim>\<open>_removeItem\<close> on the waiting list.\<close>

definition waitingListRemove :: "string \<Rightarrow> state \<Rightarrow> item option \<times> state" where
  "waitingListRemove i s =
     (case removeItem i (waitingList s) of (r, ys) \<Rightarrow> (r, s\<lparr>waitingList := ys\<rparr>))"

text \<open>
  \<^verbatim>\<open>_run\<close>, lines 108 to 118: the task is started and the chain on the promise it returns
  is recorded; its callbacks are \<open>run_then\<close>, \<open>run_catch\<close> and \<open>run_finally\<close> below.
  Starting a task (\<^verbatim>\<open>_start\<close> of \<^verbatim>\<open>./upload\<close>, not among the sources) does not call back
  into the pool within the same turn.
\<close>

definition run :: "item \<Rightarrow> state \<Rightarrow> state" where
  "run it s = s\<lparr>runs := runs s @ [(it, Awaiting)]\<rparr>"

text \<open>\<^verbatim>\<open>_check\<close>, lines 121 to 131.\<close>

definition check_item :: "state \<Rightarrow> item \<Rightarrow> state" where
  "check_item s it =
     (let s1 = snd (waitingListRemove (iid it) s);
          s2 = s1\<lparr>processingList := processingList s1 @ [it]\<rparr>
      in run it s2)"

definition check :: "state \<Rightarrow> state" where
  "check s =
     (let processingNum = length (processingList s);
          availableNum = limit s - of_nat processingNum
      in foldl check_item s (js_slice0 (waitingList s) availableNum))"

text \<open>
  \<^verbatim>\<open>_processingListRemove\<close>, lines 103 to 105: \<^verbatim>\<open>_removeItem\<close> on the processing list,
  with the admission check of line 91 when an item was taken out.
\<close>

definition processingListRemove :: "string \<Rightarrow> state \<Rightarrow> item option \<times> state" where
  "processingListRemove i s =
     (case removeItem i (processingList s) of
        (None, ys) \<Rightarrow> (None, s)
      | (Some x, ys) \<Rightarrow> (Some x, check (s\<lparr>processingList := ys\<rparr>)))"

text \<open>\<^verbatim>\<open>get size\<close>, lines 25 to 27.\<close>

definition pool_size :: "state \<Rightarrow> nat" where
  "pool_size s = length (waitingList s) + length (processingList s)"

text \<open>
  \<^verbatim>\<open>enqueue\<close>, lines 34 to 46.  The new promise is the next free cell.  Modelled from the
  spec: \<^verbatim>\<open>addRejectListener\<close> and \<^verbatim>\<open>addResolveListener\<close> of the task, which store the one
  listener of each kind.
\<close>

definition pool_enqueue :: "ref \<Rightarrow> state \<Rightarrow> pid \<times> state" where
  "pool_enqueue t s =
     (let p = nextPid s;
          s1 = s\<lparr>nextPid := p + 1,
                 promises := (promises s)(p := Pending),
                 waitingList := waitingList s @ [\<lparr>iid = uid (heap s t), task = t, deferred = p\<rparr>]\<rparr>;
          s2 = s1\<lparr>heap := (heap s1)(t := (heap s1 t)\<lparr>rejectListener := Some p,
                                                      resolveListener := Some p\<rparr>)\<rparr>
      in (p, check s2))"

text \<open>
  \<^verbatim>\<open>dequeue\<close>, lines 52 to 57.  On an empty pool \<^verbatim>\<open>shift()\<close> returns \<^verbatim>\<open>undefined\<close> and reading
  its \<^verbatim>\<open>task\<close> throws a TypeError; the lists are as before.
\<close>

definition pool_dequeue :: "state \<Rightarrow> (js_error + ref) \<times> state" where
  "pool_dequeue s =
     (case processingList s of
        x # xs \<Rightarrow> (Inr (task x), s\<lparr>processingList := xs\<rparr>)
      | [] \<Rightarrow> (case waitingList s of
                 y # ys \<Rightarrow> (Inr (task y), s\<lparr>waitingList := ys\<rparr>)
               | [] \<Rightarrow> (Inl TypeError, s)))"

text \<open>\<^verbatim>\<open>remove\<close>, lines 64 to 70.\<close>

definition pool_remove :: "string \<Rightarrow> state \<Rightarrow> ref option \<times> state" where
  "pool_remove i s =
     (case processingListRemove i s of
        (Some x, s1) \<Rightarrow> (Some (task x), s1)
      | (None, s1) \<Rightarrow> (case waitingListRemove i s1 of (r, s2) \<Rightarrow> (map_option task r, s2)))"

text \<open>A promise settles once: resolving or rejecting a settled promise does nothing.\<close>

definition settle :: "pid \<Rightarrow> settled \<Rightarrow> state \<Rightarrow> state" where
  "settle p v s = (if promises s p = Pending then s\<lparr>promises := (promises s)(p := v)\<rparr> else s)"

text \<open>
  The callbacks of the chain of \<^verbatim>\<open>_run\<close>, for the \<open>k\<close>-th run.  \<open>run_then\<close> is line 110 to
  113 (the run succeeded with \<open>d\<close>), \<open>run_catch\<close> is line 114 (it failed with \<open>e\<close>),
  \<open>run_finally\<close> is lines 115 to 117.  A callback that is not due gives \<open>None\<close>.
\<close>

definition set_phase :: "nat \<Rightarrow> phase \<Rightarrow> state \<Rightarrow> state" where
  "set_phase k ph s = s\<lparr>runs := (runs s)[k := (fst (runs s ! k), ph)]\<rparr>"

definition run_then :: "nat \<Rightarrow> res option \<Rightarrow> state \<Rightarrow> state option" where
  "run_then k d s =
     (if k < length (runs s) \<and> snd (runs s ! k) = Awaiting then
        (let it = fst (runs s ! k);
             s1 = snd (processingListRemove (iid it) (set_phase k Finishing s))
         in Some (settle (deferred it) (Fulfilled d) s1))
      else None)"

definition run_catch :: "nat \<Rightarrow> string \<Rightarrow> state \<Rightarrow> state option" where
  "run_catch k e s =
     (if k < length (runs s) \<and> snd (runs s ! k) = Awaiting then
        (let it = fst (runs s ! k)
         in Some (settle (deferred it) (Rejected e) (set_phase k Finishing s)))
      else None)"

definition run_finally :: "nat \<Rightarrow> state \<Rightarrow> state option" where
  "run_finally k s =
     (if k < length (runs s) \<and> snd (runs s ! k) = Finishing then
        Some (check (set_phase k Done s))
      else None)"

text \<open>A pool on its own: the operations a caller and the runs of its tasks perform.\<close>

datatype pool_op =
    Enqueue ref
  | Remove string
  | Dequeue
  | RunThen nat "res option"
  | RunCatch nat string
  | RunFinally nat

fun pool_step :: "pool_op \<Rightarrow> state \<Rightarrow> state option" where
  "pool_step (Enqueue t) s = Some (snd (pool_enqueue t s))"
| "pool_step (Remove i) s = Some (snd (pool_remove i s))"
| "pool_step Dequeue s = Some (snd (pool_dequeue s))"
| "pool_step (RunThen k d) s = run_then k d s"
| "pool_step (RunCatch k e) s = run_catch k e s"
| "pool_step (RunFinally k) s = run_finally k s"

fun pool_exec :: "pool_op list \<Rightarrow> state \<Rightarrow> state option" where
  "pool_exec [] s = Some s"
| "pool_exec (a # as) s = (case pool_step a s of None \<Rightarrow> None | Some s1 \<Rightarrow> pool_exec as s1)"

text \<open>Modelled from the spec: a fresh task, with the status marker "not started" (1).\<close>

definition new_uploader :: "string \<Rightarrow> (string \<times> string) list \<Rightarrow> uploader" where
  "new_uploader i fd =
     \<lparr>uid = i, statusCode = 1, isDeleted = False, stopCalls = 0, fileData = fd,
      resolveListener = None, rejectListener = None\<rparr>"

text \<open>The state index.js lines 62 to 77 and pool.js lines 15 to 18 construct.\<close>

definition init :: "rat \<Rightarrow> state" where
  "init l =
     \<lparr>limit = l, waitingList = [], processingList = [], fileQueue = [], waitQueue = [],
      newUploadPromiseList = [], status = NOT_STARTED,
      heap = (\<lambda>r. new_uploader [] []), nextRef = 0,
      promises = (\<lambda>p. Pending), nextPid = 0,
      runs = [], watches = [], handlers = [], events = []\<rparr>"

section \<open>Configuration (index.js)\<close>

text \<open>
  A value of \<^verbatim>\<open>config.parallelFileLimit\<close>: absent, not a number, or a finite number.
  Lines 57 to 60: \<^verbatim>\<open>||\<close> replaces a falsy value (\<^verbatim>\<open>undefined\<close>, \<^verbatim>\<open>NaN\<close>, \<^verbatim>\<open>0\<close>) by 5.
\<close>

datatype js_number = Undefined | NaN | Num rat

fun parallelFileLimit :: "js_number \<Rightarrow> rat" where
  "parallelFileLimit v =
     (let l = (case v of Undefined \<Rightarrow> 5 | NaN \<Rightarrow> 5 | Num x \<Rightarrow> (if x = 0 then 5 else x))
      in if l < 0 \<or> l > 5 then 5 else l)"

section \<open>Queue\<close>

text \<open>
  Modelled from the spec: the \<^verbatim>\<open>Queue\<close> of \<^verbatim>\<open>./queue\<close>, which is not among the sources.
  The spec makes it an ordered registry addressed by id: \<^verbatim>\<open>enqueue\<close> appends,
  \<^verbatim>\<open>unshift\<close> prepends, \<^verbatim>\<open>size\<close> is the length, \<^verbatim>\<open>clear\<close> empties, \<^verbatim>\<open>find(id)\<close> is a
  linear scan that changes nothing, \<^verbatim>\<open>remove(id)\<close> is a linear scan and a splice that
  gives the item removed, \<^verbatim>\<open>dequeue\<close> takes the front item.  The id of a queued object is
  read through the heap.
\<close>

fun queue_find :: "(ref \<Rightarrow> uploader) \<Rightarrow> string \<Rightarrow> ref list \<Rightarrow> ref option" where
  "queue_find h i [] = None"
| "queue_find h i (r # rs) = (if uid (h r) = i then Some r else queue_find h i rs)"

fun queue_remove :: "(ref \<Rightarrow> uploader) \<Rightarrow> string \<Rightarrow> ref list \<Rightarrow> ref option \<times> ref list" where
  "queue_remove h i [] = (None, [])"
| "queue_remove h i (r # rs) =
     (if uid (h r) = i then (Some r, rs)
      else (case queue_remove h i rs of (x, ys) \<Rightarrow> (x, r # ys)))"

section \<open>The upload manager (index.js)\<close>

text \<open>\<^verbatim>\<open>_emitError\<close>, lines 334 to 340, and \<^verbatim>\<open>this.trigger('UploadComplete')\<close>, line 280.\<close>

definition emitError :: "payload \<Rightarrow> state \<Rightarrow> state" where
  "emitError e s = s\<lparr>events := events s @ [ErrorEvent e]\<rparr>"

definition triggerUploadComplete :: "state \<Rightarrow> state" where
  "triggerUploadComplete s = s\<lparr>events := events s @ [UploadCompleteEvent]\<rparr>"

text \<open>
  Modelled from the spec: \<^verbatim>\<open>_stop()\<close> and \<^verbatim>\<open>updateFileData(partial)\<close> of the task.
  Stopping is a request (cancellation is cooperative), counted in the object; the update
  merges the fields given into the file data.
\<close>

definition task_stop :: "ref \<Rightarrow> state \<Rightarrow> state" where
  "task_stop u s = s\<lparr>heap := (heap s)(u := (heap s u)\<lparr>stopCalls := stopCalls (heap s u) + 1\<rparr>)\<rparr>"

fun set_field :: "string \<Rightarrow> string \<Rightarrow> (string \<times> string) list \<Rightarrow> (string \<times> string) list" where
  "set_field k v [] = [(k, v)]"
| "set_field k v ((k', v') # fd) = (if k = k' then (k, v) # fd else (k', v') # set_field k v fd)"

definition merge_fields :: "(string \<times> string) list \<Rightarrow> (string \<times> string) list \<Rightarrow> (string \<times> string) list" where
  "merge_fields p fd = foldl (\<lambda>acc (k, v). set_field k v acc) fd p"

definition task_updateFileData :: "(string \<times> string) list \<Rightarrow> ref \<Rightarrow> state \<Rightarrow> state" where
  "task_updateFileData p u s =
     s\<lparr>heap := (heap s)(u := (heap s u)\<lparr>fileData := merge_fields p (fileData (heap s u))\<rparr>)\<rparr>"

text \<open>
  The second argument of \<^verbatim>\<open>updateFileData\<close>: a value whose \<^verbatim>\<open>typeof\<close> is not
  \<^verbatim>\<open>'object'\<close>, or an object with its fields.  Lines 96 to 115.
\<close>

datatype js_value = NonObject | Object "(string \<times> string) list"

definition updateFileData :: "string \<Rightarrow> js_value \<Rightarrow> state \<Rightarrow> state" where
  "updateFileData uploaderid fd s =
     (case fd of
        NonObject \<Rightarrow> s
      | Object p \<Rightarrow>
          (case queue_find (heap s) uploaderid (waitQueue s) of
             None \<Rightarrow> emitError (ErrCode 112 uploaderid) s
           | Some u \<Rightarrow>
               if statusCode (heap s u) \<noteq> 1 then emitError (ErrCode 112 uploaderid) s
               else task_updateFileData p u s))"

text \<open>
  \<^verbatim>\<open>_onPromiseEnd\<close>, lines 262 to 298.  The call takes the snapshot, empties the shared list
  and registers two kinds of callback: one continuation on \<^verbatim>\<open>Promise.all\<close> of the snapshot
  (\<open>watches\<close>) and one \<^verbatim>\<open>then\<close>/\<^verbatim>\<open>catch\<close> chain on each future of it (\<open>handlers\<close>).  The
  flag says whether the callback has run.
\<close>

definition onPromiseEnd :: "state \<Rightarrow> state" where
  "onPromiseEnd s =
     (let uploadPromiseList = newUploadPromiseList s
      in s\<lparr>newUploadPromiseList := [],
           watches := watches s @ [(uploadPromiseList, False)],
           handlers := handlers s @ map (\<lambda>p. (p, False)) uploadPromiseList\<rparr>)"

fun is_fulfilled :: "settled \<Rightarrow> bool" where
  "is_fulfilled (Fulfilled v) = True"
| "is_fulfilled v = False"

text \<open>
  The continuation of lines 268 to 283.  \<^verbatim>\<open>Promise.all(list).then(f)\<close> calls \<open>f\<close> once, when
  every promise of the list is fulfilled; no rejection handler is given, so when one of
  them is rejected \<open>f\<close> is never called.
\<close>

definition all_then :: "nat \<Rightarrow> state \<Rightarrow> state option" where
  "all_then k s =
     (if k < length (watches s) \<and> \<not> snd (watches s ! k) \<and>
         list_all (\<lambda>p. is_fulfilled (promises s p)) (fst (watches s ! k))
      then
        (let s1 = s\<lparr>watches := (watches s)[k := (fst (watches s ! k), True)]\<rparr>
         in Some (if length (newUploadPromiseList s1) > 0 then onPromiseEnd s1
                  else if pool_size s1 = 0 then
                    (let s2 = s1\<lparr>status := NOT_STARTED\<rparr>
                     in if length (waitQueue s2) = 0 \<and> length (fileQueue s2) \<noteq> 0
                        then triggerUploadComplete s2 else s2)
                  else s1))
      else None)"

text \<open>
  \<^verbatim>\<open>_handleUploadStatusChange\<close>, lines 301 to 332.  A result of status 102, 106 or 107
  always names its uploader; one that does not is outside the model (\<open>None\<close>).
\<close>

definition handleUploadStatusChange :: "res \<Rightarrow> state \<Rightarrow> state option" where
  "handleUploadStatusChange r s =
     (if res_status r = 100 then
        Some (s\<lparr>waitQueue := snd (queue_remove (heap s) (data_id r) (waitQueue s))\<rparr>)
      else if res_status r = 102 then
        (case data_uploader r of
           None \<Rightarrow> None
         | Some u \<Rightarrow> Some (emitError (ErrRes r) (s\<lparr>waitQueue := u # waitQueue s\<rparr>)))
      else if res_status r = 101 \<or> res_status r = 104 \<or> res_status r = 105 then
        (case data_uploader r of
           None \<Rightarrow> Some s
         | Some u \<Rightarrow>
             if \<not> isDeleted (heap s u) then Some (s\<lparr>waitQueue := u # waitQueue s\<rparr>)
             else Some s)
      else if res_status r = 106 \<or> res_status r = 107 then
        (case data_uploader r of
           None \<Rightarrow> None
         | Some u \<Rightarrow>
             (case pool_enqueue u s of
                (p, s1) \<Rightarrow>
                  (let s2 = s1\<lparr>newUploadPromiseList := newUploadPromiseList s1 @ [p]\<rparr>
                   in Some (if status s2 = NOT_STARTED then onPromiseEnd s2 else s2))))
      else Some s)"

text \<open>
  The chain of lines 287 to 296 on the future of handler \<open>k\<close>: on fulfilment with a truthy
  result of truthy status the dispatch runs; on rejection \<^verbatim>\<open>_emitError\<close> runs.
\<close>

definition future_then :: "nat \<Rightarrow> state \<Rightarrow> state option" where
  "future_then k s =
     (if k < length (handlers s) \<and> \<not> snd (handlers s ! k) then
        (let p = fst (handlers s ! k);
             s1 = s\<lparr>handlers := (handlers s)[k := (p, True)]\<rparr>
         in case promises s p of
              Pending \<Rightarrow> None
            | Fulfilled None \<Rightarrow> Some s1
            | Fulfilled (Some r) \<Rightarrow>
                if res_status r = 0 then Some s1 else handleUploadStatusChange r s1
            | Rejected e \<Rightarrow> Some (emitError (ErrReason e) s1))
      else None)"

text \<open>
  A call of \<^verbatim>\<open>addFile\<close>, lines 133 to 170.  The functions \<^verbatim>\<open>generateFileData\<close> and
  \<^verbatim>\<open>isContainFileMimeType\<close> of \<^verbatim>\<open>./utils\<close> are not among the sources: the argument carries
  what they give for it, the fingerprint id and title of the file data and the verdict of
  the type predicate.
\<close>

record js_file =
  fingerprint :: string
  title :: string
  acceptable :: bool
  setting :: "(string \<times> string) list"

definition addFile :: "js_file \<Rightarrow> state \<Rightarrow> (js_error + ref) \<times> state" where
  "addFile f s =
     (if queue_find (heap s) (fingerprint f) (fileQueue s) \<noteq> None then
        (Inl DuplicateFile, emitError (ErrCode 110 (title f)) s)
      else if \<not> acceptable f then
        (Inl UnacceptableType, emitError (ErrCode 111 (title f)) s)
      else
        (let u = nextRef s;
             s1 = s\<lparr>nextRef := u + 1,
                    heap := (heap s)(u := new_uploader (fingerprint f) (setting f)),
                    fileQueue := fileQueue s @ [u]\<rparr>
         in if status s1 = NOT_STARTED then (Inr u, s1\<lparr>waitQueue := waitQueue s1 @ [u]\<rparr>)
            else (case pool_enqueue u s1 of
                    (p, s2) \<Rightarrow>
                      (Inr u, s2\<lparr>newUploadPromiseList := newUploadPromiseList s2 @ [p]\<rparr>))))"

text \<open>\<^verbatim>\<open>removeFile\<close>, lines 176 to 186.\<close>

definition removeFile :: "string \<Rightarrow> state \<Rightarrow> state" where
  "removeFile i s =
     (let s3 =
        (case pool_remove i s of
           (Some u, s1) \<Rightarrow>
             task_stop u (s1\<lparr>heap := (heap s1)(u := (heap s1 u)\<lparr>isDeleted := True\<rparr>)\<rparr>)
         | (None, s1) \<Rightarrow> s1\<lparr>waitQueue := snd (queue_remove (heap s1) i (waitQueue s1))\<rparr>)
      in s3\<lparr>fileQueue := snd (queue_remove (heap s3) i (fileQueue s3))\<rparr>)"

text \<open>\<^verbatim>\<open>resumeFile\<close>, lines 192 to 201.\<close>

definition resumeFile :: "string \<Rightarrow> state \<Rightarrow> state" where
  "resumeFile i s =
     (case queue_remove (heap s) i (waitQueue s) of
        (None, ws) \<Rightarrow> s
      | (Some u, ws) \<Rightarrow>
          (case pool_enqueue u (s\<lparr>waitQueue := ws\<rparr>) of
             (p, s1) \<Rightarrow>
               (let s2 = s1\<lparr>newUploadPromiseList := newUploadPromiseList s1 @ [p]\<rparr>
                in if status s2 = NOT_STARTED then onPromiseEnd s2 else s2)))"

text \<open>\<^verbatim>\<open>stopFile\<close>, lines 207 to 213.\<close>

definition stopFile :: "string \<Rightarrow> state \<Rightarrow> state" where
  "stopFile i s =
     (case pool_remove i s of
        (Some u, s1) \<Rightarrow> (let s2 = task_stop u s1 in s2\<lparr>waitQueue := waitQueue s2 @ [u]\<rparr>)
      | (None, s1) \<Rightarrow> s1)"

text \<open>
  \<^verbatim>\<open>startAll\<close>, lines 227 to 236.  The loop takes the front of \<^verbatim>\<open>waitQueue\<close> until it is
  empty; submitting to the pool does not touch that queue, so the loop runs down the
  list it found.
\<close>

fun startAll_loop :: "ref list \<Rightarrow> state \<Rightarrow> state" where
  "startAll_loop [] s = s"
| "startAll_loop (u # us) s =
     (let s1 = s\<lparr>waitQueue := us\<rparr>
      in startAll_loop us
           (if statusCode (heap s1 u) \<noteq> - 1 then
              (case pool_enqueue u s1 of
                 (p, s2) \<Rightarrow> s2\<lparr>newUploadPromiseList := newUploadPromiseList s2 @ [p]\<rparr>)
            else s1))"

definition startAll :: "state \<Rightarrow> state" where
  "startAll s = onPromiseEnd ((startAll_loop (waitQueue s) s)\<lparr>status := UPLOADING\<rparr>)"

text \<open>
  \<^verbatim>\<open>_stopAll\<close>, lines 246 to 259.  \<^verbatim>\<open>dequeue\<close> of the pool makes no admission check, so
  every round of the loop makes the pool one item smaller.
\<close>

function stopAll_loop :: "bool \<Rightarrow> state \<Rightarrow> state" where
  "stopAll_loop del s =
     (if pool_size s > 0 then
        (case pool_dequeue s of
           (Inl e, s1) \<Rightarrow> s1
         | (Inr u, s1) \<Rightarrow>
             (let s2 = (if del then s1\<lparr>heap := (heap s1)(u := (heap s1 u)\<lparr>isDeleted := True\<rparr>)\<rparr>
                        else s1);
                  s3 = task_stop u s2;
                  s4 = (if statusCode (heap s3 u) = 1 then s3\<lparr>waitQueue := waitQueue s3 @ [u]\<rparr>
                        else s3)
              in stopAll_loop del s4))
      else s)"
  by pat_completeness auto
termination
  by (relation "measure (\<lambda>(del, s). pool_size s)")
     (auto simp: pool_size_def pool_dequeue_def task_stop_def split: list.splits)

definition stopAll' :: "bool \<Rightarrow> state \<Rightarrow> state" where
  "stopAll' del s = (stopAll_loop del s)\<lparr>status := NOT_STARTED\<rparr>"

definition stopAll :: "state \<Rightarrow> state" where
  "stopAll s = stopAll' False s"

text \<open>\<^verbatim>\<open>clearAll\<close>, lines 218 to 222.\<close>

definition clearAll :: "state \<Rightarrow> state" where
  "clearAll s = (stopAll' True s)\<lparr>waitQueue := [], fileQueue := []\<rparr>"

text \<open>
  Modelled from the spec: a task that concludes on its own fires the listener the pool
  registered, which settles the promise of its last admission; a task changes its status
  marker itself.
\<close>

definition task_resolves :: "ref \<Rightarrow> res option \<Rightarrow> state \<Rightarrow> state" where
  "task_resolves u v s =
     (case resolveListener (heap s u) of None \<Rightarrow> s | Some p \<Rightarrow> settle p (Fulfilled v) s)"

definition task_rejects :: "ref \<Rightarrow> string \<Rightarrow> state \<Rightarrow> state" where
  "task_rejects u e s =
     (case rejectListener (heap s u) of None \<Rightarrow> s | Some p \<Rightarrow> settle p (Rejected e) s)"

definition task_status :: "ref \<Rightarrow> int \<Rightarrow> state \<Rightarrow> state" where
  "task_status u c s = s\<lparr>heap := (heap s)(u := (heap s u)\<lparr>statusCode := c\<rparr>)\<rparr>"

text \<open>
  One callback turn of the whole system: a call of the public interface, a callback of a
  run chain of the pool, a task acting on its own, or a callback \<^verbatim>\<open>_onPromiseEnd\<close>
  registered.  A turn that is not due gives \<open>None\<close>.
\<close>

datatype action =
    AddFile js_file
  | RemoveFile string
  | ResumeFile string
  | StopFile string
  | ClearAll
  | StartAll
  | StopAll
  | UpdateFileData string js_value
  | Run pool_op
  | TaskResolves ref "res option"
  | TaskRejects ref string
  | TaskStatus ref int
  | AllThen nat
  | FutureThen nat

fun is_run_callback :: "pool_op \<Rightarrow> bool" where
  "is_run_callback (RunThen k d) = True"
| "is_run_callback (RunCatch k e) = True"
| "is_run_callback (RunFinally k) = True"
| "is_run_callback a = False"

fun step :: "action \<Rightarrow> state \<Rightarrow> state option" where
  "step (AddFile f) s = Some (snd (addFile f s))"
| "step (RemoveFile i) s = Some (removeFile i s)"
| "step (ResumeFile i) s = Some (resumeFile i s)"
| "step (StopFile i) s = Some (stopFile i s)"
| "step ClearAll s = Some (clearAll s)"
| "step StartAll s = Some (startAll s)"
| "step StopAll s = Some (stopAll s)"
| "step (UpdateFileData i fd) s = Some (updateFileData i fd s)"
| "step (Run a) s = (if is_run_callback a then pool_step a s else None)"
| "step (TaskResolves u v) s = Some (task_resolves u v s)"
| "step (TaskRejects u e) s = Some (task_rejects u e s)"
| "step (TaskStatus u c) s = Some (task_status u c s)"
| "step (AllThen k) s = all_then k s"
| "step (FutureThen k) s = future_then k s"

fun exec :: "action list \<Rightarrow> state \<Rightarrow> state option" where
  "exec [] s = Some s"
| "exec (a # as) s = (case step a s of None \<Rightarrow> None | Some s1 \<Rightarrow> exec as s1)"

text \<open>The constructor, lines 46 to 78: the pool is made with the limit of lines 57 to 60.\<close>

definition new_PlvVideoUpload :: "js_number \<Rightarrow> state" where
  "new_PlvVideoUpload v = init (parallelFileLimit v)"

section \<open>Auxiliary notions\<close>

subsection \<open>Invariants of the pool\<close>

text \<open>The items an admission check takes from the waiting list (line 126).\<close>

definition admitted :: "state \<Rightarrow> item list" where
  "admitted s = js_slice0 (waitingList s) (limit s - of_nat (length (processingList s)))"

text \<open>
  The invariant of the pool.  Promise cells are handed out in increasing order, one for
  each call of \<^verbatim>\<open>enqueue\<close>, so the cell of an item tells when it was enqueued.
\<close>

definition pool_inv :: "state \<Rightarrow> bool" where
  "pool_inv s \<longleftrightarrow>
     of_nat (length (processingList s)) \<le> limit s \<and>
     (\<forall>it \<in> set (map fst (runs s) @ waitingList s). deferred it < nextPid s) \<and>
     sorted_wrt (<) (map deferred (map fst (runs s) @ waitingList s)) \<and>
     set (processingList s) \<subseteq> set (map fst (runs s))"

text \<open>
  A sequence of pool operations that never enqueues a task whose id the pool already
  holds, and the pools whose items have distinct ids.
\<close>

fun fresh_ids :: "pool_op list \<Rightarrow> state \<Rightarrow> bool" where
  "fresh_ids [] s = True"
| "fresh_ids (Enqueue t # as) s =
     (uid (heap s t) \<notin> iid ` set (waitingList s @ processingList s) \<and>
      fresh_ids as (snd (pool_enqueue t s)))"
| "fresh_ids (a # as) s = (case pool_step a s of None \<Rightarrow> True | Some s1 \<Rightarrow> fresh_ids as s1)"

definition ids_distinct :: "state \<Rightarrow> bool" where
  "ids_distinct s \<longleftrightarrow> distinct (map iid (waitingList s @ processingList s))"



subsection \<open>What later states keep\<close>

text \<open>
  The fields of the manager that the pool never touches, and the fields that say which
  callbacks are registered and which promises are settled.
\<close>

definition orch_part :: "state \<Rightarrow> ref list \<times> ref list \<times> pid list \<times> mode \<times> event list \<times> (pid list \<times> bool) list \<times> (pid \<times> bool) list" where
  "orch_part s = (fileQueue s, waitQueue s, newUploadPromiseList s, status s, events s, watches s, handlers s)"

definition async_part :: "state \<Rightarrow> (pid list \<times> bool) list \<times> (pid \<times> bool) list \<times> (pid \<Rightarrow> settled) \<times> pid" where
  "async_part s = (watches s, handlers s, promises s, nextPid s)"

text \<open>
  What a later state keeps of the callbacks registered and of the promises settled: the
  watches and the handlers stay where they are, one that has run stays run, and a promise
  that was handed out and is settled keeps its value.
\<close>

definition grows :: "('a \<times> bool) list \<Rightarrow> ('a \<times> bool) list \<Rightarrow> bool" where
  "grows xs ys \<longleftrightarrow>
     length xs \<le> length ys \<and>
     (\<forall>k < length xs. fst (ys ! k) = fst (xs ! k) \<and> (snd (xs ! k) \<longrightarrow> snd (ys ! k)))"

definition callbacks_kept :: "state \<Rightarrow> state \<Rightarrow> bool" where
  "callbacks_kept s s' \<longleftrightarrow>
     grows (watches s) (watches s') \<and> grows (handlers s) (handlers s') \<and>
     nextPid s \<le> nextPid s' \<and>
     (\<forall>p < nextPid s. promises s p \<noteq> Pending \<longrightarrow> promises s' p = promises s p)"

text \<open>
  How often UploadComplete was emitted, and how many continuations of watches have run.
\<close>

definition tally :: "state \<Rightarrow> nat \<times> nat" where
  "tally s = (count_list (events s) UploadCompleteEvent, length (filter snd (watches s)))"

subsection \<open>Example inputs and states\<close>

text \<open>
  Two files that pass the type predicate; a file with the fingerprint of the first and one
  with a fingerprint of its own that both fail it; a result of a given status; tasks with
  ids of their own, for a pool used without the manager.
\<close>

definition file_a :: js_file where
  "file_a = \<lparr>fingerprint = ''a'', title = ''A'', acceptable = True, setting = []\<rparr>"

definition file_b :: js_file where
  "file_b = \<lparr>fingerprint = ''b'', title = ''B'', acceptable = True, setting = []\<rparr>"

definition file_a_refused :: js_file where
  "file_a_refused = \<lparr>fingerprint = ''a'', title = ''A'', acceptable = False, setting = []\<rparr>"

definition file_c_refused :: js_file where
  "file_c_refused = \<lparr>fingerprint = ''c'', title = ''C'', acceptable = False, setting = []\<rparr>"

definition result :: "int \<Rightarrow> string \<Rightarrow> ref \<Rightarrow> res option" where
  "result c i u = Some \<lparr>res_status = c, data_id = i, data_uploader = Some u\<rparr>"

definition two_tasks :: "ref \<Rightarrow> uploader" where
  "two_tasks r = new_uploader (if r = 0 then ''a'' else ''b'') []"



definition one_waiting :: state where
  "one_waiting = snd (addFile file_a (new_PlvVideoUpload Undefined))"

definition two_started :: state where
  "two_started = startAll (snd (addFile file_b (snd (addFile file_a (new_PlvVideoUpload (Num 1))))))"

definition quota_settled :: state where
  "quota_settled =
     the (exec [AddFile file_a, AddFile file_b, StartAll, StopFile ''b'',
                Run (RunThen 0 (result 102 ''a'' 0))] (new_PlvVideoUpload Undefined))"

definition after_rejection :: state where
  "after_rejection =
     the (exec [AddFile file_a, StartAll, Run (RunCatch 0 ''boom''), FutureThen 0,
                Run (RunFinally 0)] (new_PlvVideoUpload Undefined))"


section \<open>The admission check\<close>

text \<open>
  Each round of the loop of \<^verbatim>\<open>_check\<close> removes by id the item it is about to run.  The
  items of the slice are the front of the waiting list, so the first item with that id
  is the item itself, whatever ids the others have: the check moves a prefix.
\<close>

lemma foldl_check_item:
  "waitingList s = xs @ rest \<Longrightarrow>
   foldl check_item s xs =
     s\<lparr>waitingList := rest, processingList := processingList s @ xs,
       runs := runs s @ map (\<lambda>i. (i, Awaiting)) xs\<rparr>"
proof (induction xs arbitrary: s)
  case Nil
  then show ?case by simp
next
  case (Cons x xs)
  have step: "check_item s x =
      s\<lparr>waitingList := xs @ rest, processingList := processingList s @ [x],
        runs := runs s @ [(x, Awaiting)]\<rparr>"
    using Cons.prems by (simp add: check_item_def waitingListRemove_def run_def)
  have "waitingList (check_item s x) = xs @ rest"
    by (simp add: step)
  from Cons.IH [OF this] show ?case
    by (simp add: step)
qed

lemma admitted_prefix: "admitted s = take (length (admitted s)) (waitingList s)"
  by (simp add: admitted_def js_slice0_def Let_def min_def)

lemma check_eq:
  "check s =
     s\<lparr>waitingList := drop (length (admitted s)) (waitingList s),
       processingList := processingList s @ admitted s,
       runs := runs s @ map (\<lambda>i. (i, Awaiting)) (admitted s)\<rparr>"
proof -
  have "waitingList s = admitted s @ drop (length (admitted s)) (waitingList s)"
    using admitted_prefix [of s] by (metis append_take_drop_id)
  from foldl_check_item [OF this] show ?thesis
    by (simp add: check_def Let_def admitted_def)
qed

lemma length_admitted:
  assumes a: "of_nat (length (processingList s)) \<le> limit s"
  shows "of_nat (length (processingList s) + length (admitted s)) \<le> limit s"
proof -
  define e where "e = limit s - of_nat (length (processingList s))"
  have e0: "0 \<le> e" using a by (simp add: e_def)
  have "int (length (admitted s)) \<le> \<lfloor>e\<rfloor>"
    using e0 by (auto simp: admitted_def js_slice0_def Let_def trunc_def e_def [symmetric])
  then have "of_int (int (length (admitted s))) \<le> (of_int \<lfloor>e\<rfloor> :: rat)"
    by (simp only: of_int_le_iff)
  also have "\<dots> \<le> e" by simp
  finally have "of_nat (length (admitted s)) \<le> e" by simp
  then show ?thesis by (simp add: e_def)
qed

lemma check_inv: "pool_inv s \<Longrightarrow> pool_inv (check s)"
proof -
  assume inv: "pool_inv s"
  let ?n = "length (admitted s)"
  let ?w = "waitingList s"
  have adm: "admitted s = take ?n ?w" by (rule admitted_prefix)
  have app: "(map fst (runs s) @ admitted s) @ drop ?n ?w = map fst (runs s) @ ?w"
    using adm by (metis append_assoc append_take_drop_id)
  have 1: "of_nat (length (processingList s) + ?n) \<le> limit s"
    using inv length_admitted by (simp add: pool_inv_def)
  have 2: "set (admitted s) \<subseteq> set ?w"
    using adm by (metis set_take_subset)
  show ?thesis
    unfolding pool_inv_def check_eq
    using inv 1 2 app by (auto simp: pool_inv_def comp_def simp flip: append_assoc)
qed

lemma removeItem_set: "set (snd (removeItem i xs)) \<subseteq> set xs"
  by (induction xs) (auto split: prod.splits)

lemma removeItem_length: "length (snd (removeItem i xs)) \<le> length xs"
  by (induction xs) (auto split: prod.splits)

lemma removeItem_sorted:
  "sorted_wrt P (map f xs) \<Longrightarrow> sorted_wrt P (map f (snd (removeItem i xs)))"
proof (induction xs)
  case Nil
  then show ?case by simp
next
  case (Cons x xs)
  then show ?case
    using removeItem_set [of i xs] by (auto split: prod.splits)
qed

lemma sorted_wrt_append_sub:
  "sorted_wrt P (map f (as @ xs)) \<Longrightarrow> set ys \<subseteq> set xs \<Longrightarrow> sorted_wrt P (map f ys)
   \<Longrightarrow> sorted_wrt P (map f (as @ ys))"
  by (auto simp: sorted_wrt_append)

lemma waitingListRemove_inv:
  assumes inv: "pool_inv s"
  shows "pool_inv (snd (waitingListRemove i s))"
proof -
  obtain r ys where rm: "removeItem i (waitingList s) = (r, ys)"
    by (cases "removeItem i (waitingList s)")
  have sub: "set ys \<subseteq> set (waitingList s)"
    using removeItem_set [of i "waitingList s"] rm by simp
  have srt: "sorted_wrt (<) (map deferred (map fst (runs s) @ waitingList s))"
    using inv by (simp add: pool_inv_def)
  then have "sorted_wrt (<) (map deferred (waitingList s))"
    by (simp add: sorted_wrt_append)
  then have "sorted_wrt (<) (map deferred ys)"
    using removeItem_sorted [of "(<)" deferred "waitingList s" i] rm by simp
  with srt sub have 3: "sorted_wrt (<) (map deferred (map fst (runs s) @ ys))"
    by (rule sorted_wrt_append_sub)
  have 2: "\<forall>it \<in> set (map fst (runs s) @ ys). deferred it < nextPid s"
    using inv sub by (auto simp: pool_inv_def)
  show ?thesis
    using inv 2 3 by (simp add: waitingListRemove_def rm pool_inv_def)
qed

lemma processingListRemove_inv:
  assumes inv: "pool_inv s"
  shows "pool_inv (snd (processingListRemove i s))"
proof (cases "removeItem i (processingList s)")
  case (Pair r ys)
  show ?thesis
  proof (cases r)
    case None
    then show ?thesis using inv Pair by (simp add: processingListRemove_def)
  next
    case (Some x)
    have sub: "set ys \<subseteq> set (processingList s)"
      using removeItem_set [of i "processingList s"] Pair by simp
    have len: "length ys \<le> length (processingList s)"
      using removeItem_length [of i "processingList s"] Pair by simp
    have "of_nat (length ys) \<le> limit s"
    proof -
      have "(of_nat (length ys) :: rat) \<le> of_nat (length (processingList s))"
        using len by simp
      then show ?thesis using inv by (simp add: pool_inv_def)
    qed
    then have "pool_inv (s\<lparr>processingList := ys\<rparr>)"
      using inv sub by (auto simp: pool_inv_def)
    then show ?thesis
      using Pair Some by (simp add: processingListRemove_def check_inv)
  qed
qed

lemma settle_inv: "pool_inv s \<Longrightarrow> pool_inv (settle p v s)"
  by (simp add: settle_def pool_inv_def)

lemma map_fst_update: "map fst (xs[k := (fst (xs ! k), ph)]) = map fst xs"
proof (cases "k < length xs")
  case True
  then show ?thesis by (simp add: map_update list_update_same_conv)
next
  case False
  then have "length xs \<le> k" by simp
  then show ?thesis by (simp only: list_update_beyond)
qed

lemma set_phase_inv: "pool_inv s \<Longrightarrow> pool_inv (set_phase k ph s)"
  by (simp add: set_phase_def pool_inv_def map_fst_update)

lemma pool_remove_inv: "pool_inv s \<Longrightarrow> pool_inv (snd (pool_remove i s))"
proof -
  assume inv: "pool_inv s"
  have p: "pool_inv (snd (processingListRemove i s))"
    using inv by (rule processingListRemove_inv)
  show ?thesis
  proof (cases "processingListRemove i s")
    case (Pair r s1)
    then have s1: "pool_inv s1" using p by simp
    show ?thesis
    proof (cases r)
      case None
      then show ?thesis
        using Pair waitingListRemove_inv [OF s1, of i]
        by (auto simp: pool_remove_def split: prod.splits)
    next
      case (Some x)
      then show ?thesis using Pair s1 by (simp add: pool_remove_def)
    qed
  qed
qed

lemma pool_dequeue_inv:
  assumes inv: "pool_inv s"
  shows "pool_inv (snd (pool_dequeue s))"
proof (cases "processingList s")
  case (Cons x xs)
  have "(of_nat (length xs) :: rat) \<le> of_nat (length (processingList s))"
    using Cons by simp
  then have "of_nat (length xs) \<le> limit s"
    using inv by (simp add: pool_inv_def)
  then show ?thesis
    using inv Cons by (auto simp: pool_dequeue_def pool_inv_def)
next
  case Nil
  show ?thesis
  proof (cases "waitingList s")
    case Nil': Nil
    then show ?thesis using inv Nil by (simp add: pool_dequeue_def)
  next
    case (Cons y ys)
    then show ?thesis
      using inv Nil by (auto simp: pool_dequeue_def pool_inv_def sorted_wrt_append)
  qed
qed

lemma pool_enqueue_inv:
  assumes inv: "pool_inv s"
  shows "pool_inv (snd (pool_enqueue t s))"
proof -
  have "pool_inv (s\<lparr>nextPid := nextPid s + 1,
          promises := (promises s)(nextPid s := Pending),
          waitingList := waitingList s @ [\<lparr>iid = uid (heap s t), task = t, deferred = nextPid s\<rparr>],
          heap := (heap s)(t := (heap s t)\<lparr>rejectListener := Some (nextPid s),
                                             resolveListener := Some (nextPid s)\<rparr>)\<rparr>)"
    using inv by (auto simp: pool_inv_def sorted_wrt_append less_Suc_eq)
  then show ?thesis
    by (simp add: pool_enqueue_def Let_def check_inv)
qed

lemma pool_step_inv: "pool_inv s \<Longrightarrow> pool_step a s = Some s' \<Longrightarrow> pool_inv s'"
proof (cases a)
  case (RunThen k d)
  assume "pool_inv s" "pool_step a s = Some s'"
  then show ?thesis
    using RunThen
    by (auto simp: run_then_def Let_def settle_inv processingListRemove_inv set_phase_inv
        split: if_splits)
next
  case (RunCatch k e)
  assume "pool_inv s" "pool_step a s = Some s'"
  then show ?thesis
    using RunCatch by (auto simp: run_catch_def Let_def settle_inv set_phase_inv split: if_splits)
next
  case (RunFinally k)
  assume "pool_inv s" "pool_step a s = Some s'"
  then show ?thesis
    using RunFinally by (auto simp: run_finally_def check_inv set_phase_inv split: if_splits)
qed (auto simp: pool_enqueue_inv pool_remove_inv pool_dequeue_inv)

lemma pool_exec_inv: "pool_inv s \<Longrightarrow> pool_exec as s = Some s' \<Longrightarrow> pool_inv s'"
proof (induction as arbitrary: s)
  case Nil
  then show ?case by simp
next
  case (Cons a as)
  then show ?case
    by (auto split: option.splits dest: pool_step_inv)
qed

lemma init_heap_inv: "0 \<le> l \<Longrightarrow> pool_inv ((init l)\<lparr>heap := h\<rparr>)"
  by (simp add: init_def pool_inv_def)

lemma check_limit: "limit (check s) = limit s"
  by (simp add: check_eq)

lemma processingListRemove_limit: "limit (snd (processingListRemove i s)) = limit s"
  by (simp add: processingListRemove_def check_limit split: prod.splits option.splits)

lemma waitingListRemove_limit: "limit (snd (waitingListRemove i s)) = limit s"
  by (simp add: waitingListRemove_def split: prod.splits)

lemma pool_remove_limit: "limit (snd (pool_remove i s)) = limit s"
proof (cases "processingListRemove i s")
  case (Pair r s1)
  then have "limit s1 = limit s"
    using processingListRemove_limit [of i s] by simp
  then show ?thesis
    using Pair waitingListRemove_limit [of i s1]
    by (cases r; cases "waitingListRemove i s1") (simp_all add: pool_remove_def)
qed

lemma pool_enqueue_limit: "limit (snd (pool_enqueue t s)) = limit s"
  by (simp add: pool_enqueue_def Let_def check_limit)

lemma pool_dequeue_limit: "limit (snd (pool_dequeue s)) = limit s"
  by (simp add: pool_dequeue_def split: list.splits)

lemma run_then_limit: "run_then k d s = Some s' \<Longrightarrow> limit s' = limit s"
  using processingListRemove_limit [of "iid (fst (runs s ! k))" "set_phase k Finishing s"]
  by (auto simp: run_then_def Let_def settle_def set_phase_def split: if_splits)

lemma run_catch_limit: "run_catch k e s = Some s' \<Longrightarrow> limit s' = limit s"
  by (auto simp: run_catch_def Let_def settle_def set_phase_def split: if_splits)

lemma run_finally_limit: "run_finally k s = Some s' \<Longrightarrow> limit s' = limit s"
  by (auto simp: run_finally_def check_limit set_phase_def split: if_splits)

lemma pool_step_limit: "pool_step a s = Some s' \<Longrightarrow> limit s' = limit s"
  by (cases a)
     (auto simp: pool_enqueue_limit pool_remove_limit pool_dequeue_limit
        dest: run_then_limit run_catch_limit run_finally_limit)

lemma pool_exec_limit: "pool_exec as s = Some s' \<Longrightarrow> limit s' = limit s"
proof (induction as arbitrary: s)
  case Nil
  then show ?case by simp
next
  case (Cons a as)
  then show ?case
    by (auto split: option.splits dest: pool_step_limit)
qed

lemma pool_inv_disjoint:
  assumes "pool_inv s"
  shows "set (waitingList s) \<inter> set (processingList s) = {}"
proof -
  have "\<forall>r \<in> set (map fst (runs s)). \<forall>w \<in> set (waitingList s). deferred r < deferred w"
    using assms by (simp add: pool_inv_def sorted_wrt_append)
  moreover have "set (processingList s) \<subseteq> set (map fst (runs s))"
    using assms by (simp add: pool_inv_def)
  ultimately show ?thesis by fastforce
qed







section \<open>Distinct ids\<close>

lemma removeItem_distinct_ids:
  "distinct (map iid xs) \<Longrightarrow> distinct (map iid (snd (removeItem i xs)))"
proof (induction xs)
  case Nil
  then show ?case by simp
next
  case (Cons x xs)
  then show ?case
    using removeItem_set [of i xs] by (auto split: prod.splits)
qed

lemma distinct_ids_sub:
  assumes d: "distinct (map f (xs @ ys))"
    and x: "set xs' \<subseteq> set xs" "distinct (map f xs')"
    and y: "set ys' \<subseteq> set ys" "distinct (map f ys')"
  shows "distinct (map f (xs' @ ys'))"
proof -
  have "f ` set xs \<inter> f ` set ys = {}" using d by simp
  moreover have "f ` set xs' \<subseteq> f ` set xs" "f ` set ys' \<subseteq> f ` set ys"
    using x y by (simp_all add: image_mono)
  ultimately have "f ` set xs' \<inter> f ` set ys' = {}" by blast
  then show ?thesis using x y by simp
qed

lemma check_ids: "ids_distinct s \<Longrightarrow> ids_distinct (check s)"
proof -
  assume d: "ids_distinct s"
  let ?n = "length (admitted s)"
  have adm: "admitted s = take ?n (waitingList s)" by (rule admitted_prefix)
  have "distinct (map iid ((take ?n (waitingList s) @ drop ?n (waitingList s)) @ processingList s))"
    using d by (simp add: ids_distinct_def)
  then have "distinct (map iid (drop ?n (waitingList s) @ processingList s @ take ?n (waitingList s)))"
    by (simp only: map_append distinct_append set_append) blast
  then show ?thesis
    using adm by (simp add: ids_distinct_def check_eq)
qed

lemma waitingListRemove_ids: "ids_distinct s \<Longrightarrow> ids_distinct (snd (waitingListRemove i s))"
proof -
  assume d: "ids_distinct s"
  obtain r ys where rm: "removeItem i (waitingList s) = (r, ys)"
    by (cases "removeItem i (waitingList s)")
  have "distinct (map iid (ys @ processingList s))"
  proof (rule distinct_ids_sub)
    show "distinct (map iid (waitingList s @ processingList s))"
      using d by (simp add: ids_distinct_def)
    show "set ys \<subseteq> set (waitingList s)"
      using removeItem_set [of i "waitingList s"] rm by simp
    show "distinct (map iid ys)"
      using d removeItem_distinct_ids [of "waitingList s" i] rm by (simp add: ids_distinct_def)
    show "set (processingList s) \<subseteq> set (processingList s)" by simp
    show "distinct (map iid (processingList s))"
      using d by (simp add: ids_distinct_def)
  qed
  then show ?thesis
    using rm by (simp add: ids_distinct_def waitingListRemove_def)
qed

lemma processingListRemove_ids: "ids_distinct s \<Longrightarrow> ids_distinct (snd (processingListRemove i s))"
proof -
  assume d: "ids_distinct s"
  obtain r ys where rm: "removeItem i (processingList s) = (r, ys)"
    by (cases "removeItem i (processingList s)")
  have "distinct (map iid (waitingList s @ ys))"
  proof (rule distinct_ids_sub)
    show "distinct (map iid (waitingList s @ processingList s))"
      using d by (simp add: ids_distinct_def)
    show "set ys \<subseteq> set (processingList s)"
      using removeItem_set [of i "processingList s"] rm by simp
    show "distinct (map iid ys)"
      using d removeItem_distinct_ids [of "processingList s" i] rm by (simp add: ids_distinct_def)
    show "set (waitingList s) \<subseteq> set (waitingList s)" by simp
    show "distinct (map iid (waitingList s))"
      using d by (simp add: ids_distinct_def)
  qed
  then have "ids_distinct (s\<lparr>processingList := ys\<rparr>)"
    by (simp add: ids_distinct_def)
  then show ?thesis
    using d rm by (cases r) (simp_all add: processingListRemove_def check_ids)
qed

lemma pool_remove_ids: "ids_distinct s \<Longrightarrow> ids_distinct (snd (pool_remove i s))"
proof -
  assume d: "ids_distinct s"
  have p: "ids_distinct (snd (processingListRemove i s))"
    using d by (rule processingListRemove_ids)
  show ?thesis
  proof (cases "processingListRemove i s")
    case (Pair r s1)
    then have s1: "ids_distinct s1" using p by simp
    show ?thesis
      using Pair s1 waitingListRemove_ids [OF s1, of i]
      by (cases r) (auto simp: pool_remove_def split: prod.splits)
  qed
qed

lemma pool_dequeue_ids:
  assumes d: "ids_distinct s"
  shows "ids_distinct (snd (pool_dequeue s))"
proof (cases "processingList s")
  case (Cons x xs)
  then show ?thesis
    using d by (auto simp: ids_distinct_def pool_dequeue_def)
next
  case Nil
  show ?thesis
  proof (cases "waitingList s")
    case Nil': Nil
    then show ?thesis using d Nil by (simp add: pool_dequeue_def)
  next
    case (Cons y ys)
    then show ?thesis
      using d Nil by (auto simp: ids_distinct_def pool_dequeue_def)
  qed
qed

lemma pool_enqueue_ids:
  assumes "ids_distinct s" and "uid (heap s t) \<notin> iid ` set (waitingList s @ processingList s)"
  shows "ids_distinct (snd (pool_enqueue t s))"
proof -
  have "ids_distinct (s\<lparr>nextPid := nextPid s + 1,
          promises := (promises s)(nextPid s := Pending),
          waitingList := waitingList s @ [\<lparr>iid = uid (heap s t), task = t, deferred = nextPid s\<rparr>],
          heap := (heap s)(t := (heap s t)\<lparr>rejectListener := Some (nextPid s),
                                             resolveListener := Some (nextPid s)\<rparr>)\<rparr>)"
    using assms by (auto simp: ids_distinct_def)
  then show ?thesis
    by (simp add: pool_enqueue_def Let_def check_ids)
qed

lemma settle_ids: "ids_distinct (settle p v s) = ids_distinct s"
  by (simp add: settle_def ids_distinct_def)

lemma set_phase_ids: "ids_distinct (set_phase k ph s) = ids_distinct s"
  by (simp add: set_phase_def ids_distinct_def)

lemma pool_step_ids:
  assumes d: "ids_distinct s" and st: "pool_step a s = Some s1"
    and fr: "\<And>t. a = Enqueue t \<Longrightarrow> uid (heap s t) \<notin> iid ` set (waitingList s @ processingList s)"
  shows "ids_distinct s1"
proof (cases a)
  case (Enqueue t)
  then show ?thesis using d st fr [OF Enqueue] by (auto simp: pool_enqueue_ids)
next
  case (Remove i)
  then show ?thesis using d st by (auto simp: pool_remove_ids)
next
  case Dequeue
  then show ?thesis using d st by (auto simp: pool_dequeue_ids)
next
  case (RunThen k v)
  then show ?thesis
    using d st
    by (auto simp: run_then_def Let_def settle_ids set_phase_ids processingListRemove_ids
        split: if_splits)
next
  case (RunCatch k e)
  then show ?thesis
    using d st by (auto simp: run_catch_def Let_def settle_ids set_phase_ids split: if_splits)
next
  case (RunFinally k)
  then show ?thesis
    using d st by (auto simp: run_finally_def set_phase_ids check_ids split: if_splits)
qed

lemma fresh_ids_Cons:
  "fresh_ids (a # as) s \<Longrightarrow> pool_step a s = Some s1 \<Longrightarrow>
   fresh_ids as s1 \<and>
   (\<forall>t. a = Enqueue t \<longrightarrow> uid (heap s t) \<notin> iid ` set (waitingList s @ processingList s))"
  by (cases a) auto

lemma pool_exec_ids:
  "ids_distinct s \<Longrightarrow> fresh_ids as s \<Longrightarrow> pool_exec as s = Some s' \<Longrightarrow> ids_distinct s'"
proof (induction as arbitrary: s)
  case Nil
  then show ?case by simp
next
  case (Cons a as)
  from Cons.prems(3) obtain s1 where st: "pool_step a s = Some s1"
    and ex: "pool_exec as s1 = Some s'"
    by (auto split: option.splits)
  have fr: "fresh_ids as s1"
    and en: "\<And>t. a = Enqueue t \<Longrightarrow> uid (heap s t) \<notin> iid ` set (waitingList s @ processingList s)"
    using fresh_ids_Cons [OF Cons.prems(2) st] by blast+
  have "ids_distinct s1"
    using Cons.prems(1) st en by (rule pool_step_ids)
  then show ?case
    using fr ex by (rule Cons.IH)
qed

section \<open>What the pool leaves alone\<close>

lemma removeItem_absent: "i \<notin> iid ` set xs \<Longrightarrow> removeItem i xs = (None, xs)"
  by (induction xs) auto

lemma removeItem_present: "i \<in> iid ` set xs \<Longrightarrow> \<exists>x ys. removeItem i xs = (Some x, ys) \<and> iid x = i"
  by (induction xs) (auto split: prod.splits)

lemma pool_remove_absent:
  assumes "i \<notin> iid ` set (processingList s @ waitingList s)"
  shows "pool_remove i s = (None, s)"
proof -
  have p: "i \<notin> iid ` set (processingList s)" and w: "i \<notin> iid ` set (waitingList s)"
    using assms by auto
  show ?thesis
    by (simp add: pool_remove_def processingListRemove_def waitingListRemove_def
        removeItem_absent [OF p] removeItem_absent [OF w])
qed

lemma waitingListRemove_heap: "heap (snd (waitingListRemove i s)) = heap s"
  by (simp add: waitingListRemove_def split: prod.splits)

lemma check_heap: "heap (check s) = heap s"
  by (simp add: check_eq)

lemma processingListRemove_heap: "heap (snd (processingListRemove i s)) = heap s"
  by (simp add: processingListRemove_def check_heap split: prod.splits option.splits)

lemma pool_remove_heap: "heap (snd (pool_remove i s)) = heap s"
proof (cases "processingListRemove i s")
  case (Pair r s1)
  then have "heap s1 = heap s"
    using processingListRemove_heap [of i s] by simp
  then show ?thesis
    using Pair waitingListRemove_heap [of i s1]
    by (cases r; cases "waitingListRemove i s1") (simp_all add: pool_remove_def)
qed

lemma pool_remove_present:
  assumes "i \<in> iid ` set (processingList s @ waitingList s)"
  shows "\<exists>u. fst (pool_remove i s) = Some u"
proof (cases "i \<in> iid ` set (processingList s)")
  case True
  then obtain x ys where "removeItem i (processingList s) = (Some x, ys)"
    using removeItem_present by blast
  then show ?thesis
    by (simp add: pool_remove_def processingListRemove_def)
next
  case False
  then have p: "removeItem i (processingList s) = (None, processingList s)"
    by (rule removeItem_absent)
  from False assms have "i \<in> iid ` set (waitingList s)" by auto
  then obtain x ys where "removeItem i (waitingList s) = (Some x, ys)"
    using removeItem_present by blast
  then show ?thesis
    using p by (simp add: pool_remove_def processingListRemove_def waitingListRemove_def)
qed

lemma orch_partD:
  "orch_part s' = orch_part s \<Longrightarrow>
   fileQueue s' = fileQueue s \<and> waitQueue s' = waitQueue s \<and>
   newUploadPromiseList s' = newUploadPromiseList s \<and> status s' = status s \<and>
   events s' = events s \<and> watches s' = watches s \<and> handlers s' = handlers s"
  by (simp add: orch_part_def)

lemma check_orch: "orch_part (check s) = orch_part s"
  by (simp add: check_eq orch_part_def)

lemma waitingListRemove_orch: "orch_part (snd (waitingListRemove i s)) = orch_part s"
  by (simp add: waitingListRemove_def orch_part_def split: prod.splits)

lemma processingListRemove_orch: "orch_part (snd (processingListRemove i s)) = orch_part s"
  using check_orch by (simp add: processingListRemove_def split: prod.splits option.splits) (simp add: orch_part_def)

lemma pool_remove_orch: "orch_part (snd (pool_remove i s)) = orch_part s"
proof (cases "processingListRemove i s")
  case (Pair r s1)
  then have "orch_part s1 = orch_part s"
    using processingListRemove_orch [of i s] by simp
  then show ?thesis
    using Pair waitingListRemove_orch [of i s1]
    by (cases r; cases "waitingListRemove i s1") (simp_all add: pool_remove_def)
qed

lemma pool_enqueue_orch: "orch_part (snd (pool_enqueue t s)) = orch_part s"
  by (simp add: pool_enqueue_def Let_def check_orch) (simp add: orch_part_def)

lemma queue_find_member: "r \<in> set xs \<Longrightarrow> uid (h r) = i \<Longrightarrow> queue_find h i xs \<noteq> None"
  by (induction xs) auto

lemma pool_enqueue_uid: "uid (heap (snd (pool_enqueue t s)) r) = uid (heap s r)"
  by (simp add: pool_enqueue_def Let_def check_heap)

lemma addFile_registers:
  assumes "fst (addFile f s) = Inr u"
  shows "queue_find (heap (snd (addFile f s))) (fingerprint f) (fileQueue (snd (addFile f s))) \<noteq> None"
proof -
  have ok: "queue_find (heap s) (fingerprint f) (fileQueue s) = None" "acceptable f"
    using assms by (auto simp: addFile_def split: if_splits)
  let ?u = "nextRef s"
  let ?s1 = "s\<lparr>nextRef := ?u + 1,
               heap := (heap s)(?u := new_uploader (fingerprint f) (setting f)),
               fileQueue := fileQueue s @ [?u]\<rparr>"
  let ?s' = "snd (addFile f s)"
  have fq: "fileQueue ?s' = fileQueue s @ [?u]"
    using ok orch_partD [OF pool_enqueue_orch [of ?u ?s1]]
    by (auto simp: addFile_def Let_def split: prod.splits)
  have "uid (heap ?s' ?u) = fingerprint f"
    using ok pool_enqueue_uid [of ?u ?s1 ?u]
    by (auto simp: addFile_def Let_def new_uploader_def split: prod.splits)
  moreover have "?u \<in> set (fileQueue ?s')" by (simp add: fq)
  ultimately show ?thesis by (rule queue_find_member [rotated])
qed

section \<open>What keeps an item in the processing list\<close>









section \<open>Callbacks run once\<close>

lemma grows_refl: "grows xs xs"
  by (simp add: grows_def)

lemma grows_trans: "grows xs ys \<Longrightarrow> grows ys zs \<Longrightarrow> grows xs zs"
  by (auto simp: grows_def)

lemma grows_append: "grows xs (xs @ zs)"
  by (simp add: grows_def nth_append)

lemma grows_update: "grows xs (xs[k := (fst (xs ! k), True)])"
proof (cases "k < length xs")
  case True
  then show ?thesis by (auto simp: grows_def nth_list_update)
next
  case False
  then have "length xs \<le> k" by simp
  then show ?thesis by (simp only: list_update_beyond grows_refl)
qed

lemma kept_refl: "callbacks_kept s s"
  by (simp add: callbacks_kept_def grows_refl)

lemma kept_trans: "callbacks_kept s s1 \<Longrightarrow> callbacks_kept s1 s2 \<Longrightarrow> callbacks_kept s s2"
  by (auto simp: callbacks_kept_def intro: grows_trans)

lemma kept_eq: "async_part s' = async_part s \<Longrightarrow> callbacks_kept s s'"
  by (simp add: callbacks_kept_def async_part_def grows_refl)

lemma kept_cong: "callbacks_kept s s1 \<Longrightarrow> async_part s2 = async_part s1 \<Longrightarrow> callbacks_kept s s2"
  by (simp add: callbacks_kept_def async_part_def)

lemma kept_cong2: "async_part s1 = async_part s \<Longrightarrow> callbacks_kept s1 s2 \<Longrightarrow> callbacks_kept s s2"
  by (simp add: callbacks_kept_def async_part_def)

lemma check_async: "async_part (check s) = async_part s"
  by (simp add: check_eq async_part_def)

lemma waitingListRemove_async: "async_part (snd (waitingListRemove i s)) = async_part s"
  by (simp add: waitingListRemove_def async_part_def split: prod.splits)

lemma processingListRemove_async: "async_part (snd (processingListRemove i s)) = async_part s"
  using check_async
  by (simp add: processingListRemove_def split: prod.splits option.splits) (simp add: async_part_def)

lemma pool_remove_async: "async_part (snd (pool_remove i s)) = async_part s"
proof (cases "processingListRemove i s")
  case (Pair r s1)
  then have "async_part s1 = async_part s"
    using processingListRemove_async [of i s] by simp
  then show ?thesis
    using Pair waitingListRemove_async [of i s1]
    by (cases r; cases "waitingListRemove i s1") (simp_all add: pool_remove_def)
qed

lemma pool_dequeue_async: "async_part (snd (pool_dequeue s)) = async_part s"
  by (simp add: pool_dequeue_def async_part_def split: list.splits)

lemma set_phase_async: "async_part (set_phase k ph s) = async_part s"
  by (simp add: set_phase_def async_part_def)

lemma settle_kept: "callbacks_kept s (settle p v s)"
  by (simp add: settle_def callbacks_kept_def grows_refl)

lemma pool_enqueue_kept_snd: "callbacks_kept s (snd (pool_enqueue u s))"
proof -
  let ?s2 = "s\<lparr>nextPid := nextPid s + 1,
          promises := (promises s)(nextPid s := Pending),
          waitingList := waitingList s @ [\<lparr>iid = uid (heap s u), task = u, deferred = nextPid s\<rparr>],
          heap := (heap s)(u := (heap s u)\<lparr>rejectListener := Some (nextPid s),
                                             resolveListener := Some (nextPid s)\<rparr>)\<rparr>"
  have "callbacks_kept s ?s2"
    by (simp add: callbacks_kept_def grows_refl)
  then have c: "callbacks_kept s (check ?s2)"
    using check_async by (rule kept_cong)
  have "snd (pool_enqueue u s) = check ?s2"
    by (simp add: pool_enqueue_def Let_def)
  then show ?thesis
    using c by (simp only:)
qed

lemma pool_enqueue_kept: "pool_enqueue u s = (p, s1) \<Longrightarrow> callbacks_kept s s1"
  using pool_enqueue_kept_snd [of s u] by simp

lemma pool_step_kept: "pool_step a s = Some s' \<Longrightarrow> callbacks_kept s s'"
proof (cases a)
  case (Enqueue u)
  assume "pool_step a s = Some s'"
  then show ?thesis
    using Enqueue pool_enqueue_kept [of u s "fst (pool_enqueue u s)" s'] by auto
next
  case (Remove i)
  assume "pool_step a s = Some s'"
  then show ?thesis using Remove pool_remove_async [of i s] by (auto simp: kept_eq)
next
  case Dequeue
  assume "pool_step a s = Some s'"
  then show ?thesis using Dequeue pool_dequeue_async [of s] by (auto simp: kept_eq)
next
  case (RunThen k d)
  assume a: "pool_step a s = Some s'"
  let ?s1 = "snd (processingListRemove (iid (fst (runs s ! k))) (set_phase k Finishing s))"
  have "async_part ?s1 = async_part s"
    by (simp add: processingListRemove_async set_phase_async)
  then have "callbacks_kept s (settle (deferred (fst (runs s ! k))) (Fulfilled d) ?s1)"
    using settle_kept by (rule kept_cong2)
  then show ?thesis
    using a RunThen by (auto simp: run_then_def Let_def split: if_splits)
next
  case (RunCatch k e)
  assume a: "pool_step a s = Some s'"
  have "async_part (set_phase k Finishing s) = async_part s"
    by (rule set_phase_async)
  then have "callbacks_kept s (settle (deferred (fst (runs s ! k))) (Rejected e) (set_phase k Finishing s))"
    using settle_kept by (rule kept_cong2)
  then show ?thesis
    using a RunCatch by (auto simp: run_catch_def Let_def split: if_splits)
next
  case (RunFinally k)
  assume "pool_step a s = Some s'"
  then show ?thesis
    using RunFinally by (auto simp: run_finally_def check_async set_phase_async kept_eq split: if_splits)
qed

lemma onPromiseEnd_kept: "callbacks_kept s (onPromiseEnd s)"
  by (simp add: onPromiseEnd_def Let_def callbacks_kept_def grows_append grows_refl)

lemma pool_remove_kept: "pool_remove i s = (r, s1) \<Longrightarrow> callbacks_kept s s1"
  using pool_remove_async [of i s] by (simp add: kept_eq)

lemma pool_dequeue_kept: "pool_dequeue s = (r, s1) \<Longrightarrow> callbacks_kept s s1"
  using pool_dequeue_async [of s] by (simp add: kept_eq)

lemma addFile_kept: "callbacks_kept s (snd (addFile f s))"
proof -
  let ?s1 = "s\<lparr>nextRef := nextRef s + 1,
               heap := (heap s)(nextRef s := new_uploader (fingerprint f) (setting f)),
               fileQueue := fileQueue s @ [nextRef s]\<rparr>"
  have 1: "callbacks_kept s ?s1" by (simp add: kept_eq async_part_def)
  obtain p s2 where e: "pool_enqueue (nextRef s) ?s1 = (p, s2)"
    by (cases "pool_enqueue (nextRef s) ?s1")
  have "callbacks_kept ?s1 s2" using e by (rule pool_enqueue_kept)
  with 1 have "callbacks_kept s s2" by (rule kept_trans)
  then have 2: "callbacks_kept s (s2\<lparr>newUploadPromiseList := newUploadPromiseList s2 @ [p]\<rparr>)"
    by (rule kept_cong) (simp add: async_part_def)
  show ?thesis
    using 2 e by (simp add: addFile_def Let_def emitError_def kept_eq async_part_def)
qed

lemma removeFile_kept: "callbacks_kept s (removeFile i s)"
proof (cases "pool_remove i s")
  case (Pair r s1)
  then have k: "callbacks_kept s s1" by (rule pool_remove_kept)
  show ?thesis
    using Pair by (cases r) (auto simp: removeFile_def Let_def task_stop_def async_part_def intro: kept_cong [OF k])
qed

lemma stopFile_kept: "callbacks_kept s (stopFile i s)"
proof (cases "pool_remove i s")
  case (Pair r s1)
  then have k: "callbacks_kept s s1" by (rule pool_remove_kept)
  show ?thesis
    using Pair k by (cases r) (auto simp: stopFile_def Let_def task_stop_def async_part_def intro: kept_cong [OF k])
qed

lemma resumeFile_kept: "callbacks_kept s (resumeFile i s)"
proof (cases "queue_remove (heap s) i (waitQueue s)")
  case (Pair r ws)
  show ?thesis
  proof (cases r)
    case None
    then show ?thesis using Pair by (simp add: resumeFile_def kept_refl)
  next
    case (Some u)
    obtain p s1 where e: "pool_enqueue u (s\<lparr>waitQueue := ws\<rparr>) = (p, s1)"
      by (cases "pool_enqueue u (s\<lparr>waitQueue := ws\<rparr>)")
    have "callbacks_kept (s\<lparr>waitQueue := ws\<rparr>) s1" using e by (rule pool_enqueue_kept)
    then have "callbacks_kept s s1" by (rule kept_cong2 [rotated]) (simp add: async_part_def)
    then have 2: "callbacks_kept s (s1\<lparr>newUploadPromiseList := newUploadPromiseList s1 @ [p]\<rparr>)"
      by (rule kept_cong) (simp add: async_part_def)
    then have 3: "callbacks_kept s (onPromiseEnd (s1\<lparr>newUploadPromiseList := newUploadPromiseList s1 @ [p]\<rparr>))"
      using onPromiseEnd_kept kept_trans by blast
    show ?thesis
      using Pair Some e 2 3 by (simp add: resumeFile_def Let_def)
  qed
qed

lemma startAll_loop_kept: "callbacks_kept s (startAll_loop us s)"
proof (induction us arbitrary: s)
  case Nil
  then show ?case by (simp add: kept_refl)
next
  case (Cons u us)
  let ?s1 = "s\<lparr>waitQueue := us\<rparr>"
  have 1: "callbacks_kept s ?s1" by (simp add: kept_eq async_part_def)
  obtain p s2 where e: "pool_enqueue u ?s1 = (p, s2)"
    by (cases "pool_enqueue u ?s1")
  have "callbacks_kept ?s1 s2" using e by (rule pool_enqueue_kept)
  with 1 have "callbacks_kept s s2" by (rule kept_trans)
  then have 2: "callbacks_kept s (s2\<lparr>newUploadPromiseList := newUploadPromiseList s2 @ [p]\<rparr>)"
    by (rule kept_cong) (simp add: async_part_def)
  show ?case
    using e kept_trans [OF 1 Cons.IH [of ?s1]]
      kept_trans [OF 2 Cons.IH [of "s2\<lparr>newUploadPromiseList := newUploadPromiseList s2 @ [p]\<rparr>"]]
    by (simp add: Let_def)
qed

lemma startAll_kept: "callbacks_kept s (startAll s)"
proof -
  have "callbacks_kept s ((startAll_loop (waitQueue s) s)\<lparr>status := UPLOADING\<rparr>)"
    using startAll_loop_kept [of s "waitQueue s"] by (rule kept_cong) (simp add: async_part_def)
  then show ?thesis
    unfolding startAll_def using onPromiseEnd_kept kept_trans by blast
qed

lemma stopAll_loop_kept: "callbacks_kept s (stopAll_loop del s)"
proof (induction del s rule: stopAll_loop.induct)
  case (1 del s)
  show ?case
  proof (cases "pool_size s > 0")
    case False
    then show ?thesis by (subst stopAll_loop.simps) (simp add: kept_refl)
  next
    case True
    obtain r s1 where d: "pool_dequeue s = (r, s1)" by (cases "pool_dequeue s")
    have k1: "callbacks_kept s s1" using d by (rule pool_dequeue_kept)
    show ?thesis
    proof (cases r)
      case (Inl e)
      then show ?thesis
        using True d k1 by (subst stopAll_loop.simps) simp
    next
      case (Inr u)
      let ?s2 = "if del then s1\<lparr>heap := (heap s1)(u := (heap s1 u)\<lparr>isDeleted := True\<rparr>)\<rparr> else s1"
      let ?s3 = "task_stop u ?s2"
      let ?s4 = "if statusCode (heap ?s3 u) = 1 then ?s3\<lparr>waitQueue := waitQueue ?s3 @ [u]\<rparr> else ?s3"
      have k4: "callbacks_kept s ?s4"
        using k1 by (rule kept_cong) (simp add: async_part_def task_stop_def)
      have "callbacks_kept ?s4 (stopAll_loop del ?s4)"
        using "1.IH" [OF True d [symmetric] Inr refl refl refl] .
      with k4 have "callbacks_kept s (stopAll_loop del ?s4)" by (rule kept_trans)
      then show ?thesis
        using True d Inr by (subst stopAll_loop.simps) (simp add: Let_def)
    qed
  qed
qed

lemma stopAll'_kept: "callbacks_kept s (stopAll' del s)"
  unfolding stopAll'_def using stopAll_loop_kept [of s del] by (rule kept_cong) (simp add: async_part_def)

lemma clearAll_kept: "callbacks_kept s (clearAll s)"
  unfolding clearAll_def using stopAll'_kept [of s True] by (rule kept_cong) (simp add: async_part_def)

lemma updateFileData_kept: "callbacks_kept s (updateFileData i fd s)"
  by (auto simp: updateFileData_def emitError_def task_updateFileData_def kept_eq async_part_def
      split: js_value.splits option.splits)

lemma task_kept:
  "callbacks_kept s (task_resolves u v s)" "callbacks_kept s (task_rejects u e s)"
  "callbacks_kept s (task_status u c s)"
  by (auto simp: task_resolves_def task_rejects_def task_status_def settle_kept kept_eq
      async_part_def split: option.splits)

lemma handleUploadStatusChange_kept:
  assumes "handleUploadStatusChange r s = Some s'"
  shows "callbacks_kept s s'"
proof (cases "res_status r = 106 \<or> res_status r = 107")
  case False
  then show ?thesis
    using assms
    by (auto simp: handleUploadStatusChange_def emitError_def kept_eq async_part_def
        split: if_splits option.splits)
next
  case True
  then obtain u where u: "data_uploader r = Some u"
    using assms by (auto simp: handleUploadStatusChange_def split: option.splits)
  obtain p s1 where e: "pool_enqueue u s = (p, s1)" by (cases "pool_enqueue u s")
  have "callbacks_kept s s1" using e by (rule pool_enqueue_kept)
  then have 2: "callbacks_kept s (s1\<lparr>newUploadPromiseList := newUploadPromiseList s1 @ [p]\<rparr>)"
    by (rule kept_cong) (simp add: async_part_def)
  then have 3: "callbacks_kept s (onPromiseEnd (s1\<lparr>newUploadPromiseList := newUploadPromiseList s1 @ [p]\<rparr>))"
    using onPromiseEnd_kept kept_trans by blast
  show ?thesis
    using assms True u e 2 3
    by (auto simp: handleUploadStatusChange_def Let_def split: if_splits)
qed

lemma all_then_kept:
  assumes "all_then k s = Some s'"
  shows "callbacks_kept s s'"
proof -
  let ?s1 = "s\<lparr>watches := (watches s)[k := (fst (watches s ! k), True)]\<rparr>"
  have 1: "callbacks_kept s ?s1"
    by (simp add: callbacks_kept_def grows_update grows_refl)
  have 2: "callbacks_kept s (onPromiseEnd ?s1)"
    using 1 onPromiseEnd_kept by (rule kept_trans)
  have 3: "callbacks_kept s (?s1\<lparr>status := NOT_STARTED\<rparr>)"
    using 1 by (rule kept_cong) (simp add: async_part_def)
  have 4: "callbacks_kept s (triggerUploadComplete (?s1\<lparr>status := NOT_STARTED\<rparr>))"
    using 1 by (rule kept_cong) (simp add: async_part_def triggerUploadComplete_def)
  show ?thesis
    using assms 1 2 3 4 by (auto simp: all_then_def Let_def split: if_splits)
qed

lemma future_then_kept:
  assumes "future_then k s = Some s'"
  shows "callbacks_kept s s'"
proof -
  let ?p = "fst (handlers s ! k)"
  let ?s1 = "s\<lparr>handlers := (handlers s)[k := (?p, True)]\<rparr>"
  have 1: "callbacks_kept s ?s1"
    by (simp add: callbacks_kept_def grows_update grows_refl)
  have 2: "callbacks_kept s (emitError e ?s1)" for e
    using 1 by (rule kept_cong) (simp add: async_part_def emitError_def)
  have 3: "handleUploadStatusChange r ?s1 = Some s' \<Longrightarrow> callbacks_kept s s'" for r
    using 1 handleUploadStatusChange_kept kept_trans by blast
  show ?thesis
    using assms 1 2 3
    by (auto simp: future_then_def Let_def split: if_splits settled.splits option.splits)
qed

lemma step_kept: "step a s = Some s' \<Longrightarrow> callbacks_kept s s'"
proof (cases a)
  case (Run b)
  assume "step a s = Some s'"
  then have "pool_step b s = Some s'" using Run by (simp split: if_splits)
  then show ?thesis by (rule pool_step_kept)
qed (auto simp: addFile_kept removeFile_kept resumeFile_kept stopFile_kept clearAll_kept
      startAll_kept stopAll_def stopAll'_kept updateFileData_kept task_kept
      all_then_kept future_then_kept)

lemma exec_kept: "exec as s = Some s' \<Longrightarrow> callbacks_kept s s'"
proof (induction as arbitrary: s)
  case Nil
  then show ?case by (simp add: kept_refl)
next
  case (Cons a as)
  then show ?case
    by (auto split: option.splits intro: kept_trans dest: step_kept)
qed


lemma spent_handler:
  assumes "callbacks_kept s s'" and "k < length (handlers s)" and "snd (handlers s ! k)"
  shows "future_then k s' = None"
  using assms by (auto simp: callbacks_kept_def grows_def future_then_def)

lemma rejected_watch:
  assumes kept: "callbacks_kept s s'" and k: "k < length (watches s)"
    and p: "p \<in> set (fst (watches s ! k))" and rej: "promises s p = Rejected e"
    and fresh: "p < nextPid s"
  shows "all_then k s' = None"
proof -
  have "fst (watches s' ! k) = fst (watches s ! k)"
    using kept k by (simp add: callbacks_kept_def grows_def)
  moreover have "promises s' p = Rejected e"
    using kept rej fresh by (simp add: callbacks_kept_def)
  ultimately have "\<not> list_all (\<lambda>p. is_fulfilled (promises s' p)) (fst (watches s' ! k))"
    using p by (auto simp: list_all_iff intro!: bexI [of _ p])
  then show ?thesis by (simp add: all_then_def)
qed

section \<open>Notifications and continuations\<close>


lemma tally_cong: "tally s1 = tally s \<Longrightarrow> orch_part s2 = orch_part s1 \<Longrightarrow> tally s2 = tally s"
  by (simp add: orch_part_def tally_def)





































section \<open>Claims about the pool\<close>

text \<open>
  C3.  Take a pool made with a limit that is not negative (as every limit the constructor
  configures is) and tasks of any ids.  After every sequence of pool operations
  (\<^verbatim>\<open>enqueue\<close>, \<^verbatim>\<open>remove\<close>, \<^verbatim>\<open>dequeue\<close> and the callbacks of finished runs) the processing
  list is no longer than the limit, no item is in both lists, and the items run so far
  followed by the items still waiting are in the order they were enqueued: nothing was
  admitted past an item that still waits.  The same holds after one more admission check,
  which takes a prefix of the waiting list, in order, to the end of the processing list
  and runs it.  Two calls of \<^verbatim>\<open>enqueue\<close> with one task make two items; when no task is
  enqueued while the pool holds its id, no id is in both lists either.
\<close>

theorem pool_admission_invariant:
  assumes l: "0 \<le> l" and ex: "pool_exec ops ((init l)\<lparr>heap := h\<rparr>) = Some s"
  shows "of_nat (length (processingList s)) \<le> l \<and>
         set (waitingList s) \<inter> set (processingList s) = {} \<and>
         (fresh_ids ops ((init l)\<lparr>heap := h\<rparr>) \<longrightarrow>
            iid ` set (waitingList s) \<inter> iid ` set (processingList s) = {}) \<and>
         sorted_wrt (<) (map deferred (map fst (runs s) @ waitingList s)) \<and>
         waitingList (check s) = drop (length (admitted s)) (waitingList s) \<and>
         processingList (check s) = processingList s @ take (length (admitted s)) (waitingList s) \<and>
         map fst (runs (check s)) = map fst (runs s) @ take (length (admitted s)) (waitingList s) \<and>
         of_nat (length (processingList (check s))) \<le> l \<and>
         set (waitingList (check s)) \<inter> set (processingList (check s)) = {}"
proof -
  have inv: "pool_inv s"
    using init_heap_inv [OF l] ex by (rule pool_exec_inv)
  have lim: "limit s = l"
    using pool_exec_limit [OF ex] by (simp add: init_def)
  have inv': "pool_inv (check s)"
    using inv by (rule check_inv)
  have adm: "take (length (admitted s)) (waitingList s) = admitted s"
    using admitted_prefix [of s] by simp
  have 1: "of_nat (length (processingList s)) \<le> l"
    using inv lim by (simp add: pool_inv_def)
  have 2: "set (waitingList s) \<inter> set (processingList s) = {}"
    using inv by (rule pool_inv_disjoint)
  have 3: "fresh_ids ops ((init l)\<lparr>heap := h\<rparr>) \<longrightarrow>
            iid ` set (waitingList s) \<inter> iid ` set (processingList s) = {}"
  proof
    assume f: "fresh_ids ops ((init l)\<lparr>heap := h\<rparr>)"
    have "ids_distinct ((init l)\<lparr>heap := h\<rparr>)"
      by (simp add: ids_distinct_def init_def)
    from pool_exec_ids [OF this f ex]
    show "iid ` set (waitingList s) \<inter> iid ` set (processingList s) = {}"
      by (simp add: ids_distinct_def)
  qed
  have 4: "sorted_wrt (<) (map deferred (map fst (runs s) @ waitingList s))"
    using inv by (simp add: pool_inv_def)
  have 5: "waitingList (check s) = drop (length (admitted s)) (waitingList s)"
    by (simp add: check_eq)
  have 6: "processingList (check s) = processingList s @ take (length (admitted s)) (waitingList s)"
    by (simp add: check_eq adm)
  have 7: "map fst (runs (check s)) = map fst (runs s) @ take (length (admitted s)) (waitingList s)"
    by (simp add: check_eq adm comp_def)
  have 8: "of_nat (length (processingList (check s))) \<le> l"
    using inv' lim by (simp add: pool_inv_def check_limit)
  have 9: "set (waitingList (check s)) \<inter> set (processingList (check s)) = {}"
    using inv' by (rule pool_inv_disjoint)
  from 1 2 3 4 5 6 7 8 9 show ?thesis by blast
qed

theorem pool_admission_invariant_witness:
  "(0::rat) \<le> 1 \<and>
   (\<exists>s. pool_exec [Enqueue 0, Enqueue 1, RunThen 0 None, RunFinally 0]
          ((init 1)\<lparr>heap := two_tasks\<rparr>) = Some s \<and>
        of_nat (length (processingList s)) \<le> (1::rat) \<and>
        set (waitingList s) \<inter> set (processingList s) = {} \<and>
        iid ` set (waitingList s) \<inter> iid ` set (processingList s) = {} \<and>
        map fst (runs (check s)) = map fst (runs s) @ take (length (admitted s)) (waitingList s))"
proof -
  let ?ops = "[Enqueue 0, Enqueue 1, RunThen 0 None, RunFinally 0]"
  have l: "(0::rat) \<le> 1" by simp
  have "pool_exec ?ops ((init 1)\<lparr>heap := two_tasks\<rparr>) \<noteq> None"
    by code_simp
  then obtain s where s: "pool_exec ?ops ((init 1)\<lparr>heap := two_tasks\<rparr>) = Some s"
    by blast
  have f: "fresh_ids ?ops ((init 1)\<lparr>heap := two_tasks\<rparr>)"
    by code_simp
  from pool_admission_invariant [OF l s] s l f show ?thesis by blast
qed




section \<open>Claims about the configuration\<close>

text \<open>
  C5, as the code has it.  The limit the constructor gives the pool is greater than 0 and
  at most 5.  An absent value, \<^verbatim>\<open>NaN\<close>, zero, a negative number and a number above 5 are
  replaced by 5; every other number is kept as it is, so a whole number gives a limit
  from 1 to 5, and a fraction below 1 is kept and is a limit below 1.
\<close>

theorem parallelFileLimit_range:
  "0 < limit (new_PlvVideoUpload v) \<and> limit (new_PlvVideoUpload v) \<le> 5 \<and>
   (v = Undefined \<or> v = NaN \<or> (\<exists>x. v = Num x \<and> (x \<le> 0 \<or> 5 < x))
      \<longrightarrow> limit (new_PlvVideoUpload v) = 5) \<and>
   (\<forall>x. v = Num x \<and> 0 < x \<and> x \<le> 5 \<longrightarrow> limit (new_PlvVideoUpload v) = x) \<and>
   (\<forall>n. v = Num (of_int n) \<longrightarrow> 1 \<le> limit (new_PlvVideoUpload v))"
proof -
  have int1: "\<And>n::int. 0 < (of_int n :: rat) \<Longrightarrow> 1 \<le> (of_int n :: rat)"
  proof -
    fix n :: int
    assume "0 < (of_int n :: rat)"
    then have "1 \<le> n" by simp
    then show "1 \<le> (of_int n :: rat)" by (simp only: of_int_1_le_iff)
  qed
  show ?thesis
    by (cases v) (auto simp: new_PlvVideoUpload_def init_def Let_def not_le dest: int1)
qed

theorem parallelFileLimit_range_witness:
  "limit (new_PlvVideoUpload (Num 7)) = 5 \<and> limit (new_PlvVideoUpload (Num 0)) = 5 \<and>
   limit (new_PlvVideoUpload (Num 2)) = 2 \<and> 1 \<le> limit (new_PlvVideoUpload (Num (of_int 3)))"
  using parallelFileLimit_range [of "Num 7"] parallelFileLimit_range [of "Num 0"]
    parallelFileLimit_range [of "Num 2"] parallelFileLimit_range [of "Num (of_int 3)"]
  by simp

theorem parallelFileLimit_fraction_counterexample:
  "limit (new_PlvVideoUpload (Num (1 / 2))) = 1 / 2 \<and>
   \<not> 1 \<le> limit (new_PlvVideoUpload (Num (1 / 2)))"
  by (simp add: new_PlvVideoUpload_def init_def)

section \<open>Claims about the upload manager\<close>

text \<open>
  C6, as the code has it.  \<^verbatim>\<open>addFile\<close> with a file whose fingerprint id is already in
  \<^verbatim>\<open>fileQueue\<close> emits one Error event of code 110 and throws; with a file whose id is not
  there and that fails the type predicate it emits one Error event of code 111 and throws.
  The duplicate check comes first, so a duplicate that also fails the predicate gives 110
  and never 111.  In both cases nothing but the event is changed: \<^verbatim>\<open>fileQueue\<close> (and its
  size), \<^verbatim>\<open>waitQueue\<close> and the pool are as before.  A file that was added is registered:
  adding it a second time gives 110 and leaves the size of \<^verbatim>\<open>fileQueue\<close> as it is.
\<close>

theorem addFile_rejects:
  "(queue_find (heap s) (fingerprint f) (fileQueue s) \<noteq> None \<longrightarrow>
      addFile f s = (Inl DuplicateFile, s\<lparr>events := events s @ [ErrorEvent (ErrCode 110 (title f))]\<rparr>)) \<and>
   (queue_find (heap s) (fingerprint f) (fileQueue s) = None \<and> \<not> acceptable f \<longrightarrow>
      addFile f s = (Inl UnacceptableType, s\<lparr>events := events s @ [ErrorEvent (ErrCode 111 (title f))]\<rparr>)) \<and>
   (queue_find (heap s) (fingerprint f) (fileQueue s) \<noteq> None \<or> \<not> acceptable f \<longrightarrow>
      fileQueue (snd (addFile f s)) = fileQueue s \<and>
      length (fileQueue (snd (addFile f s))) = length (fileQueue s) \<and>
      waitQueue (snd (addFile f s)) = waitQueue s \<and>
      waitingList (snd (addFile f s)) = waitingList s \<and>
      processingList (snd (addFile f s)) = processingList s \<and>
      heap (snd (addFile f s)) = heap s \<and>
      newUploadPromiseList (snd (addFile f s)) = newUploadPromiseList s \<and>
      status (snd (addFile f s)) = status s) \<and>
   (\<forall>u. fst (addFile f s) = Inr u \<longrightarrow>
      fst (addFile f (snd (addFile f s))) = Inl DuplicateFile \<and>
      length (fileQueue (snd (addFile f (snd (addFile f s))))) = length (fileQueue (snd (addFile f s))) \<and>
      events (snd (addFile f (snd (addFile f s))))
        = events (snd (addFile f s)) @ [ErrorEvent (ErrCode 110 (title f))])"
proof -
  have first: "(queue_find (heap s) (fingerprint f) (fileQueue s) \<noteq> None \<longrightarrow>
      addFile f s = (Inl DuplicateFile, s\<lparr>events := events s @ [ErrorEvent (ErrCode 110 (title f))]\<rparr>)) \<and>
   (queue_find (heap s) (fingerprint f) (fileQueue s) = None \<and> \<not> acceptable f \<longrightarrow>
      addFile f s = (Inl UnacceptableType, s\<lparr>events := events s @ [ErrorEvent (ErrCode 111 (title f))]\<rparr>)) \<and>
   (queue_find (heap s) (fingerprint f) (fileQueue s) \<noteq> None \<or> \<not> acceptable f \<longrightarrow>
      fileQueue (snd (addFile f s)) = fileQueue s \<and>
      length (fileQueue (snd (addFile f s))) = length (fileQueue s) \<and>
      waitQueue (snd (addFile f s)) = waitQueue s \<and>
      waitingList (snd (addFile f s)) = waitingList s \<and>
      processingList (snd (addFile f s)) = processingList s \<and>
      heap (snd (addFile f s)) = heap s \<and>
      newUploadPromiseList (snd (addFile f s)) = newUploadPromiseList s \<and>
      status (snd (addFile f s)) = status s)"
    by (simp add: addFile_def emitError_def)
  have again: "\<forall>u. fst (addFile f s) = Inr u \<longrightarrow>
      fst (addFile f (snd (addFile f s))) = Inl DuplicateFile \<and>
      length (fileQueue (snd (addFile f (snd (addFile f s))))) = length (fileQueue (snd (addFile f s))) \<and>
      events (snd (addFile f (snd (addFile f s))))
        = events (snd (addFile f s)) @ [ErrorEvent (ErrCode 110 (title f))]"
  proof (intro allI impI)
    fix u
    assume "fst (addFile f s) = Inr u"
    then have "queue_find (heap (snd (addFile f s))) (fingerprint f) (fileQueue (snd (addFile f s))) \<noteq> None"
      by (rule addFile_registers)
    then have "addFile f (snd (addFile f s)) =
        (Inl DuplicateFile, (snd (addFile f s))\<lparr>events := events (snd (addFile f s)) @ [ErrorEvent (ErrCode 110 (title f))]\<rparr>)"
      by (simp add: addFile_def [of f "snd (addFile f s)"] emitError_def)
    then show "fst (addFile f (snd (addFile f s))) = Inl DuplicateFile \<and>
      length (fileQueue (snd (addFile f (snd (addFile f s))))) = length (fileQueue (snd (addFile f s))) \<and>
      events (snd (addFile f (snd (addFile f s))))
        = events (snd (addFile f s)) @ [ErrorEvent (ErrCode 110 (title f))]"
      by simp
  qed
  from first again show ?thesis by blast
qed


theorem addFile_rejects_witness:
  "fst (addFile file_a (new_PlvVideoUpload Undefined)) = Inr 0 \<and>
   fst (addFile file_a (snd (addFile file_a (new_PlvVideoUpload Undefined)))) = Inl DuplicateFile \<and>
   addFile file_a one_waiting =
     (Inl DuplicateFile, one_waiting\<lparr>events := events one_waiting @ [ErrorEvent (ErrCode 110 ''A'')]\<rparr>) \<and>
   addFile file_c_refused one_waiting =
     (Inl UnacceptableType, one_waiting\<lparr>events := events one_waiting @ [ErrorEvent (ErrCode 111 ''C'')]\<rparr>) \<and>
   length (fileQueue (snd (addFile file_a one_waiting))) = 1 \<and>
   length (fileQueue (snd (addFile file_c_refused one_waiting))) = 1"
proof -
  have a: "fst (addFile file_a (new_PlvVideoUpload Undefined)) = Inr 0" by code_simp
  have tw: "fst (addFile file_a (snd (addFile file_a (new_PlvVideoUpload Undefined)))) = Inl DuplicateFile"
    using addFile_rejects [of "new_PlvVideoUpload Undefined" file_a] a by blast
  have d: "queue_find (heap one_waiting) (fingerprint file_a) (fileQueue one_waiting) \<noteq> None"
    by code_simp
  have n: "queue_find (heap one_waiting) (fingerprint file_c_refused) (fileQueue one_waiting) = None"
    "\<not> acceptable file_c_refused"
    by code_simp+
  have l: "length (fileQueue one_waiting) = 1" by code_simp
  have t: "title file_a = ''A''" "title file_c_refused = ''C''" by code_simp+
  have 1: "addFile file_a one_waiting =
     (Inl DuplicateFile, one_waiting\<lparr>events := events one_waiting @ [ErrorEvent (ErrCode 110 (title file_a))]\<rparr>)"
    using addFile_rejects [of one_waiting file_a] d by blast
  have 2: "addFile file_c_refused one_waiting =
     (Inl UnacceptableType, one_waiting\<lparr>events := events one_waiting @ [ErrorEvent (ErrCode 111 (title file_c_refused))]\<rparr>)"
    using addFile_rejects [of one_waiting file_c_refused] n by blast
  from a tw 1 2 l t show ?thesis by simp
qed

theorem addFile_refused_duplicate_counterexample:
  "\<not> acceptable file_a_refused \<and>
   fst (addFile file_a_refused one_waiting) = Inl DuplicateFile \<and>
   events (snd (addFile file_a_refused one_waiting)) = [ErrorEvent (ErrCode 110 ''A'')]"
  by code_simp

text \<open>
  C8, as the code has it.  When the update value is not an object, \<^verbatim>\<open>updateFileData\<close>
  returns at once: nothing is changed and no event is emitted, whatever the task.  When
  it is an object, the update is applied if and only if the task is found in \<^verbatim>\<open>waitQueue\<close>
  and its status marker is 1 (not started); otherwise one Error event of code 112 is
  emitted and no object is changed.
\<close>

theorem updateFileData_guard:
  "updateFileData i NonObject s = s \<and>
   (\<forall>u. queue_find (heap s) i (waitQueue s) = Some u \<and> statusCode (heap s u) = 1 \<longrightarrow>
      updateFileData i (Object p) s = task_updateFileData p u s \<and>
      fileData (heap (updateFileData i (Object p) s) u) = merge_fields p (fileData (heap s u)) \<and>
      events (updateFileData i (Object p) s) = events s) \<and>
   (queue_find (heap s) i (waitQueue s) = None \<or>
    (\<exists>u. queue_find (heap s) i (waitQueue s) = Some u \<and> statusCode (heap s u) \<noteq> 1) \<longrightarrow>
      updateFileData i (Object p) s = s\<lparr>events := events s @ [ErrorEvent (ErrCode 112 i)]\<rparr> \<and>
      heap (updateFileData i (Object p) s) = heap s)"
  by (auto simp: updateFileData_def emitError_def task_updateFileData_def)

theorem updateFileData_guard_witness:
  "fileData (heap (updateFileData ''a'' (Object [(''title'', ''T'')]) one_waiting) 0) = [(''title'', ''T'')] \<and>
   events (updateFileData ''a'' (Object [(''title'', ''T'')]) one_waiting) = [] \<and>
   events (updateFileData ''zz'' (Object [(''title'', ''T'')]) one_waiting) = [ErrorEvent (ErrCode 112 ''zz'')] \<and>
   heap (updateFileData ''zz'' (Object [(''title'', ''T'')]) one_waiting) = heap one_waiting \<and>
   events (updateFileData ''a'' (Object [(''title'', ''T'')]) two_started) = [ErrorEvent (ErrCode 112 ''a'')]"
proof -
  have a: "queue_find (heap one_waiting) ''a'' (waitQueue one_waiting) = Some 0 \<and>
           statusCode (heap one_waiting 0) = 1"
    by code_simp
  have z: "queue_find (heap one_waiting) ''zz'' (waitQueue one_waiting) = None" by code_simp
  have b: "queue_find (heap two_started) ''a'' (waitQueue two_started) = None" by code_simp
  have f: "merge_fields [(''title'', ''T'')] (fileData (heap one_waiting 0)) = [(''title'', ''T'')]"
    by code_simp
  have e: "events one_waiting = []" "events two_started = []" by code_simp+
  have 1: "fileData (heap (updateFileData ''a'' (Object [(''title'', ''T'')]) one_waiting) 0)
             = merge_fields [(''title'', ''T'')] (fileData (heap one_waiting 0)) \<and>
           events (updateFileData ''a'' (Object [(''title'', ''T'')]) one_waiting) = events one_waiting"
    using updateFileData_guard [of "''a''" one_waiting "[(''title'', ''T'')]"] a by blast
  have 2: "updateFileData ''zz'' (Object [(''title'', ''T'')]) one_waiting
             = one_waiting\<lparr>events := events one_waiting @ [ErrorEvent (ErrCode 112 ''zz'')]\<rparr> \<and>
           heap (updateFileData ''zz'' (Object [(''title'', ''T'')]) one_waiting) = heap one_waiting"
    using updateFileData_guard [of "''zz''" one_waiting "[(''title'', ''T'')]"] z by blast
  have 3: "updateFileData ''a'' (Object [(''title'', ''T'')]) two_started
             = two_started\<lparr>events := events two_started @ [ErrorEvent (ErrCode 112 ''a'')]\<rparr>"
    using updateFileData_guard [of "''a''" two_started "[(''title'', ''T'')]"] b by blast
  from 1 2 3 f e show ?thesis by simp
qed

theorem updateFileData_non_object_counterexample:
  "queue_find (heap one_waiting) ''a'' (waitQueue one_waiting) = Some 0 \<and>
   statusCode (heap one_waiting 0) = 1 \<and>
   fileData (heap (updateFileData ''a'' NonObject one_waiting) 0) = fileData (heap one_waiting 0) \<and>
   queue_find (heap one_waiting) ''zz'' (waitQueue one_waiting) = None \<and>
   events (updateFileData ''zz'' NonObject one_waiting) = []"
  by code_simp

text \<open>
  C9.  For a result of status 102 that names its uploader, the dispatch puts the uploader
  at index 0 of \<^verbatim>\<open>waitQueue\<close>, in front of what was there, and emits one Error event.  The
  chain on the future that was fulfilled with that result runs the dispatch once: after
  it has run it is not due again in any later state, so the settlement emits that one
  event.
\<close>

theorem status_102_requeue:
  assumes st: "res_status r = 102" and up: "data_uploader r = Some u"
  shows "(\<exists>s'. handleUploadStatusChange r s = Some s' \<and>
            waitQueue s' = u # waitQueue s \<and> waitQueue s' ! 0 = u \<and>
            events s' = events s @ [ErrorEvent (ErrRes r)]) \<and>
         (k < length (handlers s) \<and> handlers s ! k = (p, False) \<and>
          promises s p = Fulfilled (Some r) \<longrightarrow>
            (\<exists>s'. future_then k s = Some s' \<and>
               waitQueue s' = u # waitQueue s \<and> waitQueue s' ! 0 = u \<and>
               events s' = events s @ [ErrorEvent (ErrRes r)] \<and>
               (\<forall>as s''. exec as s' = Some s'' \<longrightarrow> future_then k s'' = None)))"
proof (intro conjI impI)
  show "\<exists>s'. handleUploadStatusChange r s = Some s' \<and>
            waitQueue s' = u # waitQueue s \<and> waitQueue s' ! 0 = u \<and>
            events s' = events s @ [ErrorEvent (ErrRes r)]"
    using st up by (simp add: handleUploadStatusChange_def emitError_def)
next
  assume h: "k < length (handlers s) \<and> handlers s ! k = (p, False) \<and>
          promises s p = Fulfilled (Some r)"
  let ?s1 = "s\<lparr>handlers := (handlers s)[k := (p, True)]\<rparr>"
  let ?s' = "emitError (ErrRes r) (?s1\<lparr>waitQueue := u # waitQueue ?s1\<rparr>)"
  have f: "future_then k s = Some ?s'"
    using h st up by (simp add: future_then_def Let_def handleUploadStatusChange_def)
  have fl: "k < length (handlers ?s')" "snd (handlers ?s' ! k)"
    using h by (simp_all add: emitError_def)
  have "\<forall>as s''. exec as ?s' = Some s'' \<longrightarrow> future_then k s'' = None"
    using fl by (blast intro: spent_handler dest: exec_kept)
  with f show "\<exists>s'. future_then k s = Some s' \<and>
               waitQueue s' = u # waitQueue s \<and> waitQueue s' ! 0 = u \<and>
               events s' = events s @ [ErrorEvent (ErrRes r)] \<and>
               (\<forall>as s''. exec as s' = Some s'' \<longrightarrow> future_then k s'' = None)"
    by (simp add: emitError_def)
qed

theorem status_102_requeue_witness:
  "(\<exists>s'. future_then 0 quota_settled = Some s' \<and> waitQueue quota_settled = [1] \<and>
      waitQueue s' = [0, 1] \<and> waitQueue s' ! 0 = 0 \<and>
      events s' = [ErrorEvent (ErrRes \<lparr>res_status = 102, data_id = ''a'', data_uploader = Some 0\<rparr>)] \<and>
      future_then 0 s' = None)"
proof -
  let ?r = "\<lparr>res_status = 102, data_id = ''a'', data_uploader = Some 0\<rparr>"
  have st: "res_status ?r = 102" and up: "data_uploader ?r = Some 0" by simp_all
  have h: "0 < length (handlers quota_settled) \<and> handlers quota_settled ! 0 = (0, False) \<and>
           promises quota_settled 0 = Fulfilled (Some ?r)"
    by code_simp
  have q: "waitQueue quota_settled = [1]" "events quota_settled = []" by code_simp+
  from status_102_requeue [OF st up, where s = quota_settled and k = 0 and p = 0] h
  obtain s' where s': "future_then 0 quota_settled = Some s'"
    "waitQueue s' = 0 # waitQueue quota_settled" "waitQueue s' ! 0 = 0"
    "events s' = events quota_settled @ [ErrorEvent (ErrRes ?r)]"
    "\<forall>as s''. exec as s' = Some s'' \<longrightarrow> future_then 0 s'' = None"
    by blast
  from s'(5) have "future_then 0 s' = None"
    by (metis exec.simps(1))
  with s' q show ?thesis by simp
qed

text \<open>
  C10.  When no item of the pool has the id, \<^verbatim>\<open>removeFile\<close> only removes the id from
  \<^verbatim>\<open>waitQueue\<close> and \<^verbatim>\<open>fileQueue\<close>: no object is changed, so no task is marked deleted and no
  stop is requested.  When an item of the pool has the id, the task \<^verbatim>\<open>remove\<close> of the pool
  gives is marked deleted and asked to stop once, no other object is changed, and
  \<^verbatim>\<open>waitQueue\<close> is left alone.
\<close>

theorem removeFile_frame:
  "(i \<notin> iid ` set (processingList s @ waitingList s) \<longrightarrow>
      removeFile i s =
        s\<lparr>waitQueue := snd (queue_remove (heap s) i (waitQueue s)),
          fileQueue := snd (queue_remove (heap s) i (fileQueue s))\<rparr> \<and>
      (\<forall>u. isDeleted (heap (removeFile i s) u) = isDeleted (heap s u) \<and>
           stopCalls (heap (removeFile i s) u) = stopCalls (heap s u))) \<and>
   (i \<in> iid ` set (processingList s @ waitingList s) \<longrightarrow>
      (\<exists>u. fst (pool_remove i s) = Some u \<and>
           isDeleted (heap (removeFile i s) u) \<and>
           stopCalls (heap (removeFile i s) u) = stopCalls (heap s u) + 1 \<and>
           (\<forall>v. v \<noteq> u \<longrightarrow> heap (removeFile i s) v = heap s v)) \<and>
      waitQueue (removeFile i s) = waitQueue s)"
proof (intro conjI impI)
  assume a: "i \<notin> iid ` set (processingList s @ waitingList s)"
  show "removeFile i s =
        s\<lparr>waitQueue := snd (queue_remove (heap s) i (waitQueue s)),
          fileQueue := snd (queue_remove (heap s) i (fileQueue s))\<rparr>"
    using pool_remove_absent [OF a] by (simp add: removeFile_def)
  then show "\<forall>u. isDeleted (heap (removeFile i s) u) = isDeleted (heap s u) \<and>
           stopCalls (heap (removeFile i s) u) = stopCalls (heap s u)"
    by simp
next
  assume a: "i \<in> iid ` set (processingList s @ waitingList s)"
  obtain u where u: "fst (pool_remove i s) = Some u"
    using pool_remove_present [OF a] by blast
  obtain s1 where s1: "pool_remove i s = (Some u, s1)"
    using u by (cases "pool_remove i s") simp
  have h: "heap s1 = heap s" using pool_remove_heap [of i s] s1 by simp
  have o: "orch_part s1 = orch_part s" using pool_remove_orch [of i s] s1 by simp
  have "isDeleted (heap (removeFile i s) u) \<and>
        stopCalls (heap (removeFile i s) u) = stopCalls (heap s u) + 1 \<and>
        (\<forall>v. v \<noteq> u \<longrightarrow> heap (removeFile i s) v = heap s v)"
    using h by (simp add: removeFile_def s1 task_stop_def)
  with u show "\<exists>u. fst (pool_remove i s) = Some u \<and>
           isDeleted (heap (removeFile i s) u) \<and>
           stopCalls (heap (removeFile i s) u) = stopCalls (heap s u) + 1 \<and>
           (\<forall>v. v \<noteq> u \<longrightarrow> heap (removeFile i s) v = heap s v)"
    by blast
  show "waitQueue (removeFile i s) = waitQueue s"
    using orch_partD [OF o] by (simp add: removeFile_def s1 task_stop_def)
qed

theorem removeFile_frame_witness:
  "waitQueue (removeFile ''a'' one_waiting) = [] \<and> fileQueue (removeFile ''a'' one_waiting) = [] \<and>
   isDeleted (heap (removeFile ''a'' one_waiting) 0) = False \<and>
   stopCalls (heap (removeFile ''a'' one_waiting) 0) = 0 \<and>
   isDeleted (heap (removeFile ''a'' two_started) 0) \<and>
   stopCalls (heap (removeFile ''a'' two_started) 0) = 1"
proof -
  have o: "''a'' \<notin> iid ` set (processingList one_waiting @ waitingList one_waiting)"
    by code_simp
  have q: "snd (queue_remove (heap one_waiting) ''a'' (waitQueue one_waiting)) = []"
    "snd (queue_remove (heap one_waiting) ''a'' (fileQueue one_waiting)) = []"
    "isDeleted (heap one_waiting 0) = False" "stopCalls (heap one_waiting 0) = 0"
    by code_simp+
  have i: "''a'' \<in> iid ` set (processingList two_started @ waitingList two_started)"
    by code_simp
  have u: "fst (pool_remove ''a'' two_started) = Some 0" "stopCalls (heap two_started 0) = 0"
    by code_simp+
  from removeFile_frame [of "''a''" one_waiting] removeFile_frame [of "''a''" two_started]
    o q i u show ?thesis by auto
qed





text \<open>
  C1, where the code departs from the claim.  A file is added and started and its run
  fails.  The chain on its future emits one Error event and is not due again in any later
  state.  But the continuation of the aggregation watch is not due either, and never will
  be: \<^verbatim>\<open>Promise.all\<close> of a snapshot with a rejected future is rejected, and line 268 gives
  \<^verbatim>\<open>then\<close> no rejection handler.  The mode stays \<^verbatim>\<open>UPLOADING\<close>; when the failed file is
  removed and another is added, that one is submitted and its future is pushed to the
  shared list, which this watch will not drain: its status 102 stays undispatched (until
  some later call, of \<^verbatim>\<open>startAll\<close> for one, starts a new watch).
\<close>

theorem rejection_stops_watch:
  "exec [AddFile file_a, StartAll, Run (RunCatch 0 ''boom''), FutureThen 0, Run (RunFinally 0)]
     (new_PlvVideoUpload Undefined) \<noteq> None \<and>
   events after_rejection = [ErrorEvent (ErrReason ''boom'')] \<and>
   promises after_rejection 0 = Rejected ''boom'' \<and>
   watches after_rejection = [([0], False)] \<and>
   handlers after_rejection = [(0, True)] \<and>
   map snd (runs after_rejection) = [Done] \<and>
   status after_rejection = UPLOADING \<and>
   \<not> (\<exists>as s t. exec as after_rejection = Some s \<and> all_then 0 s = Some t) \<and>
   \<not> (\<exists>as s t. exec as after_rejection = Some s \<and> future_then 0 s = Some t) \<and>
   (case exec [RemoveFile ''a'', AddFile file_b, Run (RunThen 1 (result 102 ''b'' 1)),
               Run (RunFinally 1)] after_rejection of
      None \<Rightarrow> False
    | Some s \<Rightarrow>
        pool_size s = 0 \<and> newUploadPromiseList s = [1] \<and>
        promises s 1 = Fulfilled (result 102 ''b'' 1) \<and>
        watches s = [([0], False)] \<and> handlers s = [(0, True)] \<and> waitQueue s = [] \<and>
        events s = [ErrorEvent (ErrReason ''boom'')] \<and> status s = UPLOADING)"
proof -
  have 1: "exec [AddFile file_a, StartAll, Run (RunCatch 0 ''boom''), FutureThen 0, Run (RunFinally 0)]
     (new_PlvVideoUpload Undefined) \<noteq> None"
    by code_simp
  have 2: "events after_rejection = [ErrorEvent (ErrReason ''boom'')]"
    "promises after_rejection 0 = Rejected ''boom''"
    "watches after_rejection = [([0], False)]"
    "handlers after_rejection = [(0, True)]"
    "map snd (runs after_rejection) = [Done]"
    "status after_rejection = UPLOADING"
    by code_simp+
  have n: "0 < nextPid after_rejection" by code_simp
  have wk: "0 < length (watches after_rejection)" "0 \<in> set (fst (watches after_rejection ! 0))"
    by code_simp+
  have hk: "0 < length (handlers after_rejection)" "snd (handlers after_rejection ! 0)"
    by code_simp+
  have w: "\<not> (\<exists>as s t. exec as after_rejection = Some s \<and> all_then 0 s = Some t)"
  proof
    assume "\<exists>as s t. exec as after_rejection = Some s \<and> all_then 0 s = Some t"
    then obtain as s t where e: "exec as after_rejection = Some s" and a: "all_then 0 s = Some t"
      by blast
    have "all_then 0 s = None"
      using exec_kept [OF e] wk 2(2) n by (rule rejected_watch)
    with a show False by simp
  qed
  have f: "\<not> (\<exists>as s t. exec as after_rejection = Some s \<and> future_then 0 s = Some t)"
  proof
    assume "\<exists>as s t. exec as after_rejection = Some s \<and> future_then 0 s = Some t"
    then obtain as s t where e: "exec as after_rejection = Some s" and a: "future_then 0 s = Some t"
      by blast
    have "future_then 0 s = None"
      using exec_kept [OF e] hk by (rule spent_handler)
    with a show False by simp
  qed
  have 3: "(case exec [RemoveFile ''a'', AddFile file_b, Run (RunThen 1 (result 102 ''b'' 1)),
               Run (RunFinally 1)] after_rejection of
      None \<Rightarrow> False
    | Some s \<Rightarrow>
        pool_size s = 0 \<and> newUploadPromiseList s = [1] \<and>
        promises s 1 = Fulfilled (result 102 ''b'' 1) \<and>
        watches s = [([0], False)] \<and> handlers s = [(0, True)] \<and> waitQueue s = [] \<and>
        events s = [ErrorEvent (ErrReason ''boom'')] \<and> status s = UPLOADING)"
    by code_simp
  from 1 2 w f 3 show ?thesis by blast
qed

text \<open>
  C2, where the code departs from the claim.  A task is started and then removed (or the
  list is cleared), which marks it deleted.  If its run then ends with status 102 the
  dispatch puts it back into \<^verbatim>\<open>waitQueue\<close>, and if it ends with status 106 or 107 the
  dispatch submits it to the pool again, where it is run; only for 101, 104 and 105 does
  the dispatch look at the mark (line 316).
\<close>

theorem deleted_task_readmitted:
  "(case exec [AddFile file_a, StartAll, RemoveFile ''a'', Run (RunThen 0 (result 102 ''a'' 0)),
               FutureThen 0] (new_PlvVideoUpload Undefined) of
      None \<Rightarrow> False
    | Some s \<Rightarrow> isDeleted (heap s 0) \<and> fileQueue s = [] \<and> waitQueue s = [0]) \<and>
   (case exec [AddFile file_a, StartAll, RemoveFile ''a'', Run (RunThen 0 (result 106 ''a'' 0)),
               FutureThen 0] (new_PlvVideoUpload Undefined) of
      None \<Rightarrow> False
    | Some s \<Rightarrow> isDeleted (heap s 0) \<and> fileQueue s = [] \<and> map task (processingList s) = [0] \<and>
        map snd (runs s) = [Finishing, Awaiting]) \<and>
   (case exec [AddFile file_a, StartAll, RemoveFile ''a'', Run (RunThen 0 (result 107 ''a'' 0)),
               FutureThen 0] (new_PlvVideoUpload Undefined) of
      None \<Rightarrow> False
    | Some s \<Rightarrow> isDeleted (heap s 0) \<and> fileQueue s = [] \<and> map task (processingList s) = [0] \<and>
        map snd (runs s) = [Finishing, Awaiting]) \<and>
   (case exec [AddFile file_a, StartAll, ClearAll, Run (RunThen 0 (result 102 ''a'' 0)),
               FutureThen 0] (new_PlvVideoUpload Undefined) of
      None \<Rightarrow> False
    | Some s \<Rightarrow> isDeleted (heap s 0) \<and> fileQueue s = [] \<and> waitQueue s = [0]) \<and>
   (case exec [AddFile file_a, StartAll, RemoveFile ''a'', Run (RunThen 0 (result 104 ''a'' 0)),
               FutureThen 0] (new_PlvVideoUpload Undefined) of
      None \<Rightarrow> False
    | Some s \<Rightarrow> isDeleted (heap s 0) \<and> fileQueue s = [] \<and> waitQueue s = [] \<and> pool_size s = 0)"
  by code_simp

end
